theory Spec2Isabelle
  imports Main
begin

section \<open>The search tree of st.py\<close>

text \<open>
  The exceptions the module can raise: \<open>AttributeError\<close> from \<open>EmptyClass.value\<close> and
  \<open>AssertionError\<close> from the \<open>assert\<close> in \<open>rightmost\<close>.
\<close>

datatype error = AttributeError | AssertionError

text \<open>
  \<open>Empty\<close> is the one instance of \<open>EmptyClass\<close>; \<open>InnerNode\<close> carries the dataclass
  fields \<open>_value\<close>, \<open>_left\<close>, \<open>_right\<close> and the cached \<open>_height\<close> (a Python int).
\<close>

datatype 'a tree = Empty | InnerNode 'a "'a tree" "'a tree" int

text \<open>The four properties of \<open>Tree\<close>; only \<open>value\<close> of the empty tree raises.\<close>

fun value_of :: "'a tree \<Rightarrow> error + 'a" where
  "value_of Empty = Inl AttributeError"
| "value_of (InnerNode v l r h) = Inr v"

fun height :: "'a tree \<Rightarrow> int" where
  "height Empty = 0"
| "height (InnerNode v l r h) = h"

fun left :: "'a tree \<Rightarrow> 'a tree" where
  "left Empty = Empty"
| "left (InnerNode v l r h) = l"

fun right :: "'a tree \<Rightarrow> 'a tree" where
  "right Empty = Empty"
| "right (InnerNode v l r h) = r"

definition bf :: "'a tree \<Rightarrow> int" where
  "bf n = height (right n) - height (left n)"

text \<open>
  \<open>InnerNode(v, l, r)\<close> as the program calls it: the generated \<open>__init__\<close> followed by
  \<open>__post_init__\<close>, which sets \<open>_height\<close> to \<open>max(left.height, right.height) + 1\<close>.
\<close>

definition mk_node :: "'a \<Rightarrow> 'a tree \<Rightarrow> 'a tree \<Rightarrow> 'a tree" where
  "mk_node v l r = InnerNode v l r (max (height l) (height r) + 1)"

text \<open>Sequencing of computations that may raise: the first exception wins.\<close>

definition bind_r :: "error + 'a \<Rightarrow> ('a \<Rightarrow> error + 'b) \<Rightarrow> error + 'b" where
  "bind_r m f = (case m of Inl e \<Rightarrow> Inl e | Inr x \<Rightarrow> f x)"

text \<open>
  The rotations. Python evaluates the arguments left to right, so \<open>rot_left\<close> reads
  \<open>n.right.value\<close> before \<open>n.value\<close>, and \<open>rot_right\<close> reads \<open>n.left.value\<close> before
  \<open>n.value\<close>.
\<close>

definition rot_left :: "'a tree \<Rightarrow> error + 'a tree" where
  "rot_left n =
     bind_r (value_of (right n)) (\<lambda>rv.
     bind_r (value_of n) (\<lambda>v.
       Inr (mk_node rv (mk_node v (left n) (left (right n))) (right (right n)))))"

definition rot_right :: "'a tree \<Rightarrow> error + 'a tree" where
  "rot_right n =
     bind_r (value_of (left n)) (\<lambda>lv.
     bind_r (value_of n) (\<lambda>v.
       Inr (mk_node lv (left (left n)) (mk_node v (right (left n)) (right n)))))"

definition balance :: "'a tree \<Rightarrow> error + 'a tree" where
  "balance n =
     (if bf n \<le> - 2 then
        (if bf (left n) > 0 then
           bind_r (value_of n) (\<lambda>v.
           bind_r (rot_left (left n)) (\<lambda>l'.
             rot_right (mk_node v l' (right n))))
         else rot_right n)
      else if bf n \<ge> 2 then
        (if bf (right n) < 0 then
           bind_r (value_of n) (\<lambda>v.
           bind_r (rot_right (right n)) (\<lambda>r'.
             rot_left (mk_node v (left n) r')))
         else rot_left n)
      else Inr n)"

text \<open>
  \<open>contains\<close>: the \<open>while True\<close> loop descends one level per iteration, so it is a
  structural recursion; \<open>t.value\<close> is only read after the \<open>t is Empty\<close> test failed.
\<close>

fun contains :: "'a::linorder tree \<Rightarrow> 'a \<Rightarrow> bool" where
  "contains Empty val = False"
| "contains (InnerNode v l r h) val =
     (if v = val then True
      else if val < v then contains l val
      else contains r val)"

fun insert_tree :: "'a::linorder tree \<Rightarrow> 'a \<Rightarrow> error + 'a tree" where
  "insert_tree Empty val = Inr (mk_node val Empty Empty)"
| "insert_tree (InnerNode v l r h) val =
     (if v < val then
        bind_r (insert_tree r val) (\<lambda>r'. balance (mk_node v l r'))
      else if v > val then
        bind_r (insert_tree l val) (\<lambda>l'. balance (mk_node v l' r))
      else Inr (InnerNode v l r h))"

text \<open>
  \<open>rightmost\<close>: the assertion, then the loop \<open>while t.right is not Empty\<close>, then
  \<open>t.value\<close>.
\<close>

fun rightmost_loop :: "'a tree \<Rightarrow> error + 'a" where
  "rightmost_loop Empty = value_of Empty"
| "rightmost_loop (InnerNode v l r h) =
     (if r \<noteq> Empty then rightmost_loop r else value_of (InnerNode v l r h))"

definition rightmost :: "'a tree \<Rightarrow> error + 'a" where
  "rightmost t = (if t = Empty then Inl AssertionError else rightmost_loop t)"

fun remove :: "'a::linorder tree \<Rightarrow> 'a \<Rightarrow> error + 'a tree" where
  "remove Empty val = Inr Empty"
| "remove (InnerNode v l r h) val =
     (if val < v then
        bind_r (remove l val) (\<lambda>l'. balance (mk_node v l' r))
      else if val > v then
        bind_r (remove r val) (\<lambda>r'. balance (mk_node v l r'))
      else if l = Empty then Inr r
      else if r = Empty then Inr l
      else
        bind_r (rightmost l) (\<lambda>x.
        bind_r (remove l x) (\<lambda>l'. balance (mk_node x l' r))))"

section \<open>The same functions, with the identity of each node\<close>

text \<open>
  Some properties are about which \<open>InnerNode\<close> objects a result is made of, not only
  about its contents. Nodes are frozen, so nothing is ever written to an existing object,
  and a reference to a tree is described by the tree together with the identity of each
  of its nodes: in \<open>ONode i v l r h\<close> the number \<open>i\<close> is the identity of the object, the
  count of \<open>InnerNode\<close> objects created before it. Two references denote the same object
  exactly when the identities agree; \<open>OEmpty\<close> is the single \<open>Empty\<close> object.

  A \<open>trace\<close> records how many \<open>InnerNode\<close> objects have been created so far (the next
  identity) and how many times \<open>rot_left\<close> or \<open>rot_right\<close> has been called.
\<close>

datatype 'a otree = OEmpty | ONode nat 'a "'a otree" "'a otree" int

record trace =
  allocated :: nat
  rotations :: nat

fun value_of_o :: "'a otree \<Rightarrow> error + 'a" where
  "value_of_o OEmpty = Inl AttributeError"
| "value_of_o (ONode i v l r h) = Inr v"

fun height_o :: "'a otree \<Rightarrow> int" where
  "height_o OEmpty = 0"
| "height_o (ONode i v l r h) = h"

fun left_o :: "'a otree \<Rightarrow> 'a otree" where
  "left_o OEmpty = OEmpty"
| "left_o (ONode i v l r h) = l"

fun right_o :: "'a otree \<Rightarrow> 'a otree" where
  "right_o OEmpty = OEmpty"
| "right_o (ONode i v l r h) = r"

definition bf_o :: "'a otree \<Rightarrow> int" where
  "bf_o n = height_o (right_o n) - height_o (left_o n)"

text \<open>
  Every call \<open>InnerNode(v, l, r)\<close> creates one object; its identity is the current count.
\<close>

definition new_node :: "'a \<Rightarrow> 'a otree \<Rightarrow> 'a otree \<Rightarrow> trace \<Rightarrow> 'a otree \<times> trace" where
  "new_node v l r s =
     (ONode (allocated s) v l r (max (height_o l) (height_o r) + 1),
      s\<lparr>allocated := allocated s + 1\<rparr>)"

text \<open>
  In \<open>rot_left\<close> the inner \<open>InnerNode(...)\<close> is an argument of the outer one, so it is
  created first; likewise in \<open>rot_right\<close>. In the double rotations of \<open>balance\<close> the
  nested rotation runs before the node that receives its result is created.
\<close>

definition rot_left_o :: "'a otree \<Rightarrow> trace \<Rightarrow> error + 'a otree \<times> trace" where
  "rot_left_o n s =
     bind_r (value_of_o (right_o n)) (\<lambda>rv.
     bind_r (value_of_o n) (\<lambda>v.
       case new_node v (left_o n) (left_o (right_o n)) (s\<lparr>rotations := rotations s + 1\<rparr>) of
         (m, s1) \<Rightarrow> Inr (new_node rv m (right_o (right_o n)) s1)))"

definition rot_right_o :: "'a otree \<Rightarrow> trace \<Rightarrow> error + 'a otree \<times> trace" where
  "rot_right_o n s =
     bind_r (value_of_o (left_o n)) (\<lambda>lv.
     bind_r (value_of_o n) (\<lambda>v.
       case new_node v (right_o (left_o n)) (right_o n) (s\<lparr>rotations := rotations s + 1\<rparr>) of
         (m, s1) \<Rightarrow> Inr (new_node lv (left_o (left_o n)) m s1)))"

definition balance_o :: "'a otree \<Rightarrow> trace \<Rightarrow> error + 'a otree \<times> trace" where
  "balance_o n s =
     (if bf_o n \<le> - 2 then
        (if bf_o (left_o n) > 0 then
           bind_r (value_of_o n) (\<lambda>v.
           bind_r (rot_left_o (left_o n) s) (\<lambda>(l', s1).
             case new_node v l' (right_o n) s1 of (m, s2) \<Rightarrow> rot_right_o m s2))
         else rot_right_o n s)
      else if bf_o n \<ge> 2 then
        (if bf_o (right_o n) < 0 then
           bind_r (value_of_o n) (\<lambda>v.
           bind_r (rot_right_o (right_o n) s) (\<lambda>(r', s1).
             case new_node v (left_o n) r' s1 of (m, s2) \<Rightarrow> rot_left_o m s2))
         else rot_left_o n s)
      else Inr (n, s))"

fun insert_o :: "'a::linorder otree \<Rightarrow> 'a \<Rightarrow> trace \<Rightarrow> error + 'a otree \<times> trace" where
  "insert_o OEmpty val s = Inr (new_node val OEmpty OEmpty s)"
| "insert_o (ONode i v l r h) val s =
     (if v < val then
        bind_r (insert_o r val s) (\<lambda>(r', s1).
          case new_node v l r' s1 of (m, s2) \<Rightarrow> balance_o m s2)
      else if v > val then
        bind_r (insert_o l val s) (\<lambda>(l', s1).
          case new_node v l' r s1 of (m, s2) \<Rightarrow> balance_o m s2)
      else Inr (ONode i v l r h, s))"

fun rightmost_loop_o :: "'a otree \<Rightarrow> error + 'a" where
  "rightmost_loop_o OEmpty = value_of_o OEmpty"
| "rightmost_loop_o (ONode i v l r h) =
     (if r \<noteq> OEmpty then rightmost_loop_o r else value_of_o (ONode i v l r h))"

definition rightmost_o :: "'a otree \<Rightarrow> error + 'a" where
  "rightmost_o t = (if t = OEmpty then Inl AssertionError else rightmost_loop_o t)"

fun remove_o :: "'a::linorder otree \<Rightarrow> 'a \<Rightarrow> trace \<Rightarrow> error + 'a otree \<times> trace" where
  "remove_o OEmpty val s = Inr (OEmpty, s)"
| "remove_o (ONode i v l r h) val s =
     (if val < v then
        bind_r (remove_o l val s) (\<lambda>(l', s1).
          case new_node v l' r s1 of (m, s2) \<Rightarrow> balance_o m s2)
      else if val > v then
        bind_r (remove_o r val s) (\<lambda>(r', s1).
          case new_node v l r' s1 of (m, s2) \<Rightarrow> balance_o m s2)
      else if l = OEmpty then Inr (r, s)
      else if r = OEmpty then Inr (l, s)
      else
        bind_r (rightmost_o l) (\<lambda>x.
        bind_r (remove_o l x s) (\<lambda>(l', s1).
          case new_node x l' r s1 of (m, s2) \<Rightarrow> balance_o m s2)))"

text \<open>Forgetting the identities gives the tree of the first embedding.\<close>

fun erase :: "'a otree \<Rightarrow> 'a tree" where
  "erase OEmpty = Empty"
| "erase (ONode i v l r h) = InnerNode v (erase l) (erase r) h"


definition forget :: "error + 'a otree \<times> trace \<Rightarrow> error + 'a tree" where
  "forget m = (case m of Inl e \<Rightarrow> Inl e | Inr (t, s) \<Rightarrow> Inr (erase t))"

section \<open>Invariants and observations\<close>

text \<open>
  Height consistency: every cached \<open>_height\<close> is the one \<open>__post_init__\<close> computes from
  the children. Every tree the program can build satisfies it, as \<open>_height\<close> is not an
  argument of the constructor.
\<close>

fun height_ok :: "'a tree \<Rightarrow> bool" where
  "height_ok Empty = True"
| "height_ok (InnerNode v l r h) =
     (h = max (height l) (height r) + 1 \<and> height_ok l \<and> height_ok r)"

text \<open>Balance: the balance factor \<open>bf\<close> of every inner node is \<open>-1\<close>, \<open>0\<close> or \<open>1\<close>.\<close>

fun balanced :: "'a tree \<Rightarrow> bool" where
  "balanced Empty = True"
| "balanced (InnerNode v l r h) =
     (- 1 \<le> bf (InnerNode v l r h) \<and> bf (InnerNode v l r h) \<le> 1 \<and> balanced l \<and> balanced r)"

definition avl :: "'a tree \<Rightarrow> bool" where
  "avl t = (height_ok t \<and> balanced t)"

fun inorder :: "'a tree \<Rightarrow> 'a list" where
  "inorder Empty = []"
| "inorder (InnerNode v l r h) = inorder l @ v # inorder r"

text \<open>Search-tree order at every inner node.\<close>

fun bst :: "'a::linorder tree \<Rightarrow> bool" where
  "bst Empty = True"
| "bst (InnerNode v l r h) =
     ((\<forall>x \<in> set (inorder l). x < v) \<and> (\<forall>x \<in> set (inorder r). v < x) \<and> bst l \<and> bst r)"

text \<open>
  A caller's sequence of \<open>insert\<close> and \<open>remove\<close> calls, each applied to the tree the
  previous call returned; an exception ends the sequence.
\<close>

datatype 'a call = Insert 'a | Remove 'a

fun apply_call :: "'a::linorder tree \<Rightarrow> 'a call \<Rightarrow> error + 'a tree" where
  "apply_call t (Insert v) = insert_tree t v"
| "apply_call t (Remove v) = remove t v"

fun run :: "'a::linorder tree \<Rightarrow> 'a call list \<Rightarrow> error + 'a tree" where
  "run t [] = Inr t"
| "run t (c # cs) = bind_r (apply_call t c) (\<lambda>t'. run t' cs)"

text \<open>
  The history of a call sequence, for comparison with \<open>contains\<close>: \<open>effect\<close> is what
  a call does to the set of stored values, and \<open>inserted_not_removed cs v\<close> says that
  some call of \<open>cs\<close> inserts \<open>v\<close> and no later call removes it.
\<close>

fun effect :: "'a set \<Rightarrow> 'a call \<Rightarrow> 'a set" where
  "effect S (Insert v) = insert v S"
| "effect S (Remove v) = S - {v}"

definition inserted_not_removed :: "'a call list \<Rightarrow> 'a \<Rightarrow> bool" where
  "inserted_not_removed cs v =
     (\<exists>i \<in> {..<length cs}. cs ! i = Insert v \<and> Remove v \<notin> set (drop (Suc i) cs))"

fun apply_call_o :: "'a::linorder otree \<Rightarrow> 'a call \<Rightarrow> trace \<Rightarrow> error + 'a otree \<times> trace" where
  "apply_call_o t (Insert v) s = insert_o t v s"
| "apply_call_o t (Remove v) s = remove_o t v s"

fun run_o :: "'a::linorder otree \<Rightarrow> 'a call list \<Rightarrow> trace \<Rightarrow> error + 'a otree \<times> trace" where
  "run_o t [] s = Inr (t, s)"
| "run_o t (c # cs) s = bind_r (apply_call_o t c s) (\<lambda>(t', s'). run_o t' cs s')"

text \<open>
  \<open>search_depth t val\<close> is the number of inner nodes the descent of \<open>contains\<close>,
  \<open>insert\<close> and \<open>remove\<close> for \<open>val\<close> leaves behind before it stops, at the node
  holding \<open>val\<close> or at \<open>Empty\<close>.
\<close>

fun search_depth :: "'a::linorder tree \<Rightarrow> 'a \<Rightarrow> nat" where
  "search_depth Empty val = 0"
| "search_depth (InnerNode v l r h) val =
     (if v = val then 0
      else if val < v then Suc (search_depth l val)
      else Suc (search_depth r val))"

text \<open>
  \<open>path_copied k val t t'\<close>: \<open>t'\<close> is \<open>t\<close> with each node that the descent for \<open>val\<close>
  leaves behind replaced by a new object (identity at least \<open>k\<close>) of the same value and
  height; the node holding \<open>val\<close>, if there is one, and every subtree off the path are the
  same objects as in \<open>t\<close>.
\<close>

fun path_copied :: "nat \<Rightarrow> 'a::linorder \<Rightarrow> 'a otree \<Rightarrow> 'a otree \<Rightarrow> bool" where
  "path_copied k val OEmpty t' = (t' = OEmpty)"
| "path_copied k val (ONode i v l r h) t' =
     (if v = val then t' = ONode i v l r h
      else case t' of
        OEmpty \<Rightarrow> False
      | ONode i' v' l' r' h' \<Rightarrow>
          k \<le> i' \<and> v' = v \<and> h' = h \<and>
          (if val < v then path_copied k val l l' \<and> r' = r
           else l' = l \<and> path_copied k val r r'))"

text \<open>Every node of the tree was created before the \<open>k\<close>-th allocation.\<close>

fun ids_below :: "nat \<Rightarrow> 'a otree \<Rightarrow> bool" where
  "ids_below k OEmpty = True"
| "ids_below k (ONode i v l r h) = (i < k \<and> ids_below k l \<and> ids_below k r)"

section \<open>Basic facts\<close>

lemma bind_r_Inr [simp]: "bind_r (Inr x) f = f x"
  by (simp add: bind_r_def)

lemma bind_r_Inl [simp]: "bind_r (Inl e) f = Inl e"
  by (simp add: bind_r_def)

lemma bind_r_eq_Inr: "bind_r m f = Inr y \<longleftrightarrow> (\<exists>x. m = Inr x \<and> f x = Inr y)"
  by (cases m) simp_all

lemma height_mk_node [simp]: "height (mk_node v l r) = max (height l) (height r) + 1"
  by (simp add: mk_node_def)

lemma left_mk_node [simp]: "left (mk_node v l r) = l"
  by (simp add: mk_node_def)

lemma right_mk_node [simp]: "right (mk_node v l r) = r"
  by (simp add: mk_node_def)

lemma value_of_mk_node [simp]: "value_of (mk_node v l r) = Inr v"
  by (simp add: mk_node_def)

lemma inorder_mk_node [simp]: "inorder (mk_node v l r) = inorder l @ v # inorder r"
  by (simp add: mk_node_def)

lemma bf_mk_node [simp]: "bf (mk_node v l r) = height r - height l"
  by (simp add: bf_def)

lemma avl_Empty [simp]: "avl Empty"
  by (simp add: avl_def)

lemma avl_mk_node [simp]:
  "avl (mk_node v l r) \<longleftrightarrow> avl l \<and> avl r \<and> - 1 \<le> height r - height l \<and> height r - height l \<le> 1"
  by (auto simp: avl_def mk_node_def bf_def)

lemma avl_InnerNode:
  "avl (InnerNode v l r h) \<longleftrightarrow>
     h = max (height l) (height r) + 1 \<and> avl l \<and> avl r \<and>
     - 1 \<le> height r - height l \<and> height r - height l \<le> 1"
  by (auto simp: avl_def bf_def)

lemma height_ok_nonneg: "height_ok t \<Longrightarrow> 0 \<le> height t"
  by (induction t) auto

lemma height_ok_pos: "height_ok t \<Longrightarrow> t \<noteq> Empty \<Longrightarrow> 1 \<le> height t"
  using height_ok_nonneg by (cases t) fastforce+

lemma avl_height_nonneg: "avl t \<Longrightarrow> 0 \<le> height t"
  by (simp add: avl_def height_ok_nonneg)

lemma avl_height_pos:
  "avl t \<Longrightarrow> 1 \<le> height t \<Longrightarrow>
   \<exists>v l r. t = mk_node v l r \<and> avl l \<and> avl r \<and>
           - 1 \<le> height r - height l \<and> height r - height l \<le> 1"
  by (cases t) (auto simp: avl_InnerNode mk_node_def)

section \<open>Rotations and rebalancing\<close>

text \<open>
  A tree with consistent heights and a positive height is an inner node, so the reads of
  \<open>value\<close> in the rotations succeed whenever \<open>balance\<close> decides to rotate: a factor of
  \<open>-2\<close> means the left child has height at least 2, and a positive factor of that child
  means its right child is not empty.
\<close>

lemma rot_left_mk_node [simp]:
  "rot_left (mk_node v l (mk_node rv rl rr)) = Inr (mk_node rv (mk_node v l rl) rr)"
  by (simp add: rot_left_def)

lemma rot_right_mk_node [simp]:
  "rot_right (mk_node v (mk_node lv ll lr) r) = Inr (mk_node lv ll (mk_node v lr r))"
  by (simp add: rot_right_def)

lemma balance_in_range:
  "- 1 \<le> height r - height l \<Longrightarrow> height r - height l \<le> 1 \<Longrightarrow>
   balance (mk_node v l r) = Inr (mk_node v l r)"
  by (simp add: balance_def)

lemma balance_left_heavy:
  assumes "avl l" "avl r" "height l = height r + 2"
  shows "\<exists>t. balance (mk_node v l r) = Inr t \<and> avl t \<and>
             inorder t = inorder l @ v # inorder r \<and>
             (height t = height l \<or> height t = height l + 1)"
proof -
  from assms avl_height_nonneg [of r] have "1 \<le> height l" by simp
  with assms(1) obtain lv ll lr where l: "l = mk_node lv ll lr" "avl ll" "avl lr"
    "- 1 \<le> height lr - height ll" "height lr - height ll \<le> 1"
    using avl_height_pos by blast
  show ?thesis
  proof (cases "height lr - height ll > 0")
    case True
    with l avl_height_nonneg [of ll] have "1 \<le> height lr" by simp
    with l(3) obtain v' a b where lr: "lr = mk_node v' a b" "avl a" "avl b"
      "- 1 \<le> height b - height a" "height b - height a \<le> 1"
      using avl_height_pos by blast
    from True l lr assms show ?thesis
      by (simp add: balance_def max_def split: if_splits)
  next
    case False
    with l assms show ?thesis
      by (auto simp add: balance_def max_def split: if_splits)
  qed
qed

lemma balance_right_heavy:
  assumes "avl l" "avl r" "height r = height l + 2"
  shows "\<exists>t. balance (mk_node v l r) = Inr t \<and> avl t \<and>
             inorder t = inorder l @ v # inorder r \<and>
             (height t = height r \<or> height t = height r + 1)"
proof -
  from assms avl_height_nonneg [of l] have "1 \<le> height r" by simp
  with assms(2) obtain rv rl rr where r: "r = mk_node rv rl rr" "avl rl" "avl rr"
    "- 1 \<le> height rr - height rl" "height rr - height rl \<le> 1"
    using avl_height_pos by blast
  show ?thesis
  proof (cases "height rr - height rl < 0")
    case True
    with r avl_height_nonneg [of rr] have "1 \<le> height rl" by simp
    with r(2) obtain v' a b where rl: "rl = mk_node v' a b" "avl a" "avl b"
      "- 1 \<le> height b - height a" "height b - height a \<le> 1"
      using avl_height_pos by blast
    from True r rl assms show ?thesis
      by (simp add: balance_def max_def split: if_splits)
  next
    case False
    with r assms show ?thesis
      by (auto simp add: balance_def max_def split: if_splits)
  qed
qed


lemma balance_avl:
  assumes "avl l" "avl r" "- 2 \<le> height r - height l" "height r - height l \<le> 2"
  shows "\<exists>t. balance (mk_node v l r) = Inr t \<and> avl t \<and>
             inorder t = inorder l @ v # inorder r \<and>
             (height t = max (height l) (height r) \<or>
              height t = max (height l) (height r) + 1) \<and>
             (- 1 \<le> height r - height l \<and> height r - height l \<le> 1 \<longrightarrow>
                t = mk_node v l r)"
proof -
  consider (ok) "- 1 \<le> height r - height l" "height r - height l \<le> 1"
    | (lh) "height l = height r + 2" | (rh) "height r = height l + 2"
    using assms(3,4) by linarith
  then show ?thesis
  proof cases
    case ok
    with assms(1,2) show ?thesis
      by (simp add: balance_in_range)
  next
    case lh
    from balance_left_heavy [OF assms(1,2) lh, of v] lh show ?thesis
      by auto
  next
    case rh
    from balance_right_heavy [OF assms(1,2) rh, of v] rh show ?thesis
      by auto
  qed
qed

section \<open>Insertion\<close>

lemma insert_tree_avl:
  "avl t \<Longrightarrow>
   \<exists>t'. insert_tree t x = Inr t' \<and> avl t' \<and>
        (height t' = height t \<or> height t' = height t + 1) \<and>
        set (inorder t') = insert x (set (inorder t))"
proof (induction t)
  case Empty
  show ?case by simp
next
  case (InnerNode v l r h)
  from InnerNode.prems have inv: "avl l" "avl r" "h = max (height l) (height r) + 1"
    "- 1 \<le> height r - height l" "height r - height l \<le> 1"
    by (simp_all add: avl_InnerNode)
  consider (gt) "v < x" | (lt) "x < v" | (eq) "x = v"
    by (metis not_less_iff_gr_or_eq)
  then show ?case
  proof cases
    case gt
    from InnerNode.IH(2) [OF inv(2)] obtain r' where r': "insert_tree r x = Inr r'" "avl r'"
      "height r' = height r \<or> height r' = height r + 1"
      "set (inorder r') = insert x (set (inorder r))"
      by blast
    from r'(3) inv(4,5) have d: "- 2 \<le> height r' - height l" "height r' - height l \<le> 2"
      by linarith+
    from balance_avl [OF inv(1) r'(2) d, of v] obtain t' where
      t': "balance (mk_node v l r') = Inr t'" "avl t'"
          "inorder t' = inorder l @ v # inorder r'"
          "height t' = max (height l) (height r') \<or> height t' = max (height l) (height r') + 1"
          "- 1 \<le> height r' - height l \<and> height r' - height l \<le> 1 \<longrightarrow> t' = mk_node v l r'"
      by blast
    have "height t' = h \<or> height t' = h + 1"
    proof (cases "height r' - height l \<le> 1")
      case True
      with t'(5) d(1) r'(3) inv(3,4,5) show ?thesis
        by (cases "- 1 \<le> height r' - height l") (auto simp: max_def)
    next
      case False
      with t'(4) r'(3) inv(3,4,5) show ?thesis
        by (auto simp: max_def)
    qed
    with gt r' t' show ?thesis
      by auto
  next
    case lt
    from InnerNode.IH(1) [OF inv(1)] obtain l' where l': "insert_tree l x = Inr l'" "avl l'"
      "height l' = height l \<or> height l' = height l + 1"
      "set (inorder l') = insert x (set (inorder l))"
      by blast
    from l'(3) inv(4,5) have d: "- 2 \<le> height r - height l'" "height r - height l' \<le> 2"
      by linarith+
    from balance_avl [OF l'(2) inv(2) d, of v] obtain t' where
      t': "balance (mk_node v l' r) = Inr t'" "avl t'"
          "inorder t' = inorder l' @ v # inorder r"
          "height t' = max (height l') (height r) \<or> height t' = max (height l') (height r) + 1"
          "- 1 \<le> height r - height l' \<and> height r - height l' \<le> 1 \<longrightarrow> t' = mk_node v l' r"
      by blast
    have "height t' = h \<or> height t' = h + 1"
    proof (cases "- 1 \<le> height r - height l'")
      case True
      with t'(5) d(2) l'(3) inv(3,4,5) show ?thesis
        by (cases "height r - height l' \<le> 1") (auto simp: max_def)
    next
      case False
      with t'(4) l'(3) inv(3,4,5) show ?thesis
        by (auto simp: max_def)
    qed
    with lt l' t' show ?thesis
      by auto
  next
    case eq
    with InnerNode.prems show ?thesis by simp
  qed
qed


section \<open>Search-tree order\<close>

text \<open>
  The order is the strict sortedness of the in-order list, which the rotations do not
  change.
\<close>

lemma bst_mk_node [simp]:
  "bst (mk_node v l r) \<longleftrightarrow>
     (\<forall>x \<in> set (inorder l). x < v) \<and> (\<forall>x \<in> set (inorder r). v < x) \<and> bst l \<and> bst r"
  by (simp add: mk_node_def)

lemma bst_sorted: "bst t \<longleftrightarrow> sorted_wrt (<) (inorder t)"
proof (induction t)
  case Empty
  show ?case by simp
next
  case (InnerNode v l r h)
  have "(\<forall>x \<in> set (inorder l). x < v) \<Longrightarrow> (\<forall>y \<in> set (inorder r). v < y) \<Longrightarrow>
        (\<forall>x \<in> set (inorder l). \<forall>y \<in> set (inorder r). x < y)"
    by (meson less_trans)
  with InnerNode.IH show ?case
    by (auto simp: sorted_wrt_append)
qed

lemma rot_left_inorder: "rot_left n = Inr t \<Longrightarrow> inorder t = inorder n"
  by (cases n; cases "right n") (auto simp: rot_left_def)

lemma rot_right_inorder: "rot_right n = Inr t \<Longrightarrow> inorder t = inorder n"
  by (cases n; cases "left n") (auto simp: rot_right_def)

lemma balance_inorder: "balance n = Inr t \<Longrightarrow> inorder t = inorder n"
proof (cases n)
  case Empty
  then show "balance n = Inr t \<Longrightarrow> inorder t = inorder n"
    by (simp add: balance_def bf_def)
next
  case (InnerNode v l r h)
  then show "balance n = Inr t \<Longrightarrow> inorder t = inorder n"
    by (auto simp: balance_def bind_r_eq_Inr split: if_splits
             dest!: rot_left_inorder rot_right_inorder)
qed

lemma balance_bst: "balance n = Inr t \<Longrightarrow> bst n \<Longrightarrow> bst t"
  by (simp add: bst_sorted balance_inorder)

lemma insert_tree_set:
  "insert_tree t x = Inr t' \<Longrightarrow> set (inorder t') = insert x (set (inorder t))"
proof (induction t arbitrary: t')
  case Empty
  then show ?case by auto
next
  case (InnerNode v l r h)
  then show ?case
    by (fastforce simp: bind_r_eq_Inr split: if_splits dest!: balance_inorder)
qed

lemma insert_tree_bst: "bst t \<Longrightarrow> insert_tree t x = Inr t' \<Longrightarrow> bst t'"
proof (induction t arbitrary: t')
  case Empty
  then show ?case by auto
next
  case (InnerNode v l r h)
  show ?case
  proof (cases "v < x")
    case True
    with InnerNode.prems(2) obtain r' where
      r': "insert_tree r x = Inr r'" "balance (mk_node v l r') = Inr t'"
      by (auto simp: bind_r_eq_Inr)
    from InnerNode.IH(2) [OF _ r'(1)] InnerNode.prems(1) have "bst r'" by simp
    with InnerNode.prems(1) True insert_tree_set [OF r'(1)] have "bst (mk_node v l r')"
      by simp
    with r'(2) show ?thesis by (rule balance_bst)
  next
    case False
    note nlt = this
    show ?thesis
    proof (cases "x < v")
      case True
      with nlt InnerNode.prems(2) obtain l' where
        l': "insert_tree l x = Inr l'" "balance (mk_node v l' r) = Inr t'"
        by (auto simp: bind_r_eq_Inr)
      from InnerNode.IH(1) [OF _ l'(1)] InnerNode.prems(1) have "bst l'" by simp
      with InnerNode.prems(1) True insert_tree_set [OF l'(1)] have "bst (mk_node v l' r)"
        by simp
      with l'(2) show ?thesis by (rule balance_bst)
    next
      case False
      with nlt InnerNode.prems show ?thesis by auto
    qed
  qed
qed

lemma contains_iff: "bst t \<Longrightarrow> contains t x \<longleftrightarrow> x \<in> set (inorder t)"
  by (induction t) (auto)

lemma rightmost_loop_max:
  "t \<noteq> Empty \<Longrightarrow>
   \<exists>x. rightmost_loop t = Inr x \<and> x \<in> set (inorder t) \<and>
       (bst t \<longrightarrow> (\<forall>y \<in> set (inorder t). y \<le> x))"
proof (induction t)
  case Empty
  then show ?case by simp
next
  case (InnerNode v l r h)
  show ?case
  proof (cases "r = Empty")
    case True
    then show ?thesis by auto
  next
    case False
    from InnerNode.IH(2) [OF False] obtain x where
      x: "rightmost_loop r = Inr x" "x \<in> set (inorder r)"
         "bst r \<longrightarrow> (\<forall>y \<in> set (inorder r). y \<le> x)"
      by blast
    with False show ?thesis
      by (auto intro: less_imp_le less_trans order.trans)
  qed
qed

lemma rightmost_max:
  "t \<noteq> Empty \<Longrightarrow>
   \<exists>x. rightmost t = Inr x \<and> x \<in> set (inorder t) \<and>
       (bst t \<longrightarrow> (\<forall>y \<in> set (inorder t). y \<le> x))"
  using rightmost_loop_max [of t] by (simp add: rightmost_def)


section \<open>Removal\<close>

lemma remove_avl:
  "avl t \<Longrightarrow>
   \<exists>t'. remove t x = Inr t' \<and> avl t' \<and> (height t' = height t \<or> height t' = height t - 1)"
proof (induction t arbitrary: x)
  case Empty
  show ?case by simp
next
  case (InnerNode v l r h)
  from InnerNode.prems have inv: "avl l" "avl r" "h = max (height l) (height r) + 1"
    "- 1 \<le> height r - height l" "height r - height l \<le> 1"
    by (simp_all add: avl_InnerNode)
  have shrink_left: "\<exists>t'. bind_r (remove l y) (\<lambda>l'. balance (mk_node w l' r)) = Inr t' \<and> avl t' \<and>
      (height t' = h \<or> height t' = h - 1)" for y w
  proof -
    from InnerNode.IH(1) [OF inv(1), of y] obtain l' where
      l': "remove l y = Inr l'" "avl l'" "height l' = height l \<or> height l' = height l - 1"
      by blast
    from l'(3) inv(4,5) have d: "- 2 \<le> height r - height l'" "height r - height l' \<le> 2"
      by linarith+
    from balance_avl [OF l'(2) inv(2) d, of w] obtain t' where
      t': "balance (mk_node w l' r) = Inr t'" "avl t'"
          "height t' = max (height l') (height r) \<or> height t' = max (height l') (height r) + 1"
          "- 1 \<le> height r - height l' \<and> height r - height l' \<le> 1 \<longrightarrow> t' = mk_node w l' r"
      by blast
    have "height t' = h \<or> height t' = h - 1"
    proof (cases "height r - height l' \<le> 1")
      case True
      with t'(4) d(1) l'(3) inv(3,4,5) show ?thesis
        by (cases "- 1 \<le> height r - height l'") (auto simp: max_def)
    next
      case False
      with t'(3) l'(3) inv(3,4,5) show ?thesis
        by (auto simp: max_def)
    qed
    with l'(1) t'(1,2) show ?thesis by simp
  qed
  have shrink_right: "\<exists>t'. bind_r (remove r y) (\<lambda>r'. balance (mk_node w l r')) = Inr t' \<and> avl t' \<and>
      (height t' = h \<or> height t' = h - 1)" for y w
  proof -
    from InnerNode.IH(2) [OF inv(2), of y] obtain r' where
      r': "remove r y = Inr r'" "avl r'" "height r' = height r \<or> height r' = height r - 1"
      by blast
    from r'(3) inv(4,5) have d: "- 2 \<le> height r' - height l" "height r' - height l \<le> 2"
      by linarith+
    from balance_avl [OF inv(1) r'(2) d, of w] obtain t' where
      t': "balance (mk_node w l r') = Inr t'" "avl t'"
          "height t' = max (height l) (height r') \<or> height t' = max (height l) (height r') + 1"
          "- 1 \<le> height r' - height l \<and> height r' - height l \<le> 1 \<longrightarrow> t' = mk_node w l r'"
      by blast
    have "height t' = h \<or> height t' = h - 1"
    proof (cases "- 1 \<le> height r' - height l")
      case True
      with t'(4) d(2) r'(3) inv(3,4,5) show ?thesis
        by (cases "height r' - height l \<le> 1") (auto simp: max_def)
    next
      case False
      with t'(3) r'(3) inv(3,4,5) show ?thesis
        by (auto simp: max_def)
    qed
    with r'(1) t'(1,2) show ?thesis by simp
  qed
  consider (lt) "x < v" | (gt) "v < x" | (eq) "x = v"
    by (metis not_less_iff_gr_or_eq)
  then show ?case
  proof cases
    case lt
    with shrink_left [of x v] show ?thesis by simp
  next
    case gt
    with shrink_right [of x v] show ?thesis by auto
  next
    case eq
    show ?thesis
    proof (cases "l = Empty")
      case True
      with eq inv avl_height_nonneg [of r] show ?thesis by simp
    next
      case False
      note lne = this
      show ?thesis
      proof (cases "r = Empty")
        case True
        with eq lne inv avl_height_nonneg [of l] show ?thesis by simp
      next
        case False
        from rightmost_max [OF lne] obtain y where y: "rightmost l = Inr y" by blast
        with eq lne False shrink_left [of y y] show ?thesis by simp
      qed
    qed
  qed
qed


lemma remove_bst:
  "bst t \<Longrightarrow> remove t x = Inr t' \<Longrightarrow> bst t' \<and> set (inorder t') = set (inorder t) - {x}"
proof (induction t arbitrary: x t')
  case Empty
  then show ?case by auto
next
  case (InnerNode v l r h)
  from InnerNode.prems(1) have ord: "\<forall>y \<in> set (inorder l). y < v" "\<forall>y \<in> set (inorder r). v < y"
    "bst l" "bst r"
    by simp_all
  consider (lt) "x < v" | (gt) "v < x" | (eq) "x = v"
    by (metis not_less_iff_gr_or_eq)
  then show ?case
  proof cases
    case lt
    with InnerNode.prems(2) obtain l' where
      l': "remove l x = Inr l'" "balance (mk_node v l' r) = Inr t'"
      by (auto simp: bind_r_eq_Inr)
    from InnerNode.IH(1) [OF ord(3) l'(1)] have
      il: "bst l'" "set (inorder l') = set (inorder l) - {x}" by simp_all
    with ord have "bst (mk_node v l' r)" by simp
    with l'(2) have "bst t'" by (rule balance_bst)
    moreover from lt ord(2) have "x \<notin> set (inorder r)" by auto
    with lt il(2) balance_inorder [OF l'(2)] have
      "set (inorder t') = set (inorder (InnerNode v l r h)) - {x}"
      by auto
    ultimately show ?thesis by simp
  next
    case gt
    then have "\<not> x < v" by simp
    with gt InnerNode.prems(2) obtain r' where
      r': "remove r x = Inr r'" "balance (mk_node v l r') = Inr t'"
      by (auto simp: bind_r_eq_Inr)
    from InnerNode.IH(2) [OF ord(4) r'(1)] have
      ir: "bst r'" "set (inorder r') = set (inorder r) - {x}" by simp_all
    with ord have "bst (mk_node v l r')" by simp
    with r'(2) have "bst t'" by (rule balance_bst)
    moreover from gt ord(1) have "x \<notin> set (inorder l)" by auto
    with gt ir(2) balance_inorder [OF r'(2)] have
      "set (inorder t') = set (inorder (InnerNode v l r h)) - {x}"
      by auto
    ultimately show ?thesis by simp
  next
    case eq
    from ord(1,2) have notin: "v \<notin> set (inorder l)" "v \<notin> set (inorder r)" by auto
    show ?thesis
    proof (cases "l = Empty")
      case True
      with eq InnerNode.prems(2) ord notin show ?thesis by auto
    next
      case False
      note lne = this
      show ?thesis
      proof (cases "r = Empty")
        case True
        with eq lne InnerNode.prems(2) ord notin show ?thesis by auto
      next
        case False
        from rightmost_max [OF lne] ord(3) obtain y where
          y: "rightmost l = Inr y" "y \<in> set (inorder l)" "\<forall>z \<in> set (inorder l). z \<le> y"
          by blast
        with eq lne False InnerNode.prems(2) obtain l' where
          l': "remove l y = Inr l'" "balance (mk_node y l' r) = Inr t'"
          by (auto simp: bind_r_eq_Inr)
        from InnerNode.IH(1) [OF ord(3) l'(1)] have
          il: "bst l'" "set (inorder l') = set (inorder l) - {y}" by simp_all
        from y(2) ord(1) have "y < v" by simp
        with ord(2) have "\<forall>z \<in> set (inorder r). y < z" by (meson less_trans)
        moreover from il(2) y(3) have "\<forall>z \<in> set (inorder l'). z < y" by auto
        ultimately have "bst (mk_node y l' r)" using il(1) ord(4) by simp
        with l'(2) have "bst t'" by (rule balance_bst)
        moreover from il(2) y(2) notin eq balance_inorder [OF l'(2)] have
          "set (inorder t') = set (inorder (InnerNode v l r h)) - {x}"
          by auto
        ultimately show ?thesis by simp
      qed
    qed
  qed
qed

section \<open>Call sequences\<close>

lemma apply_call_inv:
  assumes "avl t" "bst t"
  shows "\<exists>t'. apply_call t c = Inr t' \<and> avl t' \<and> bst t' \<and>
     set (inorder t') = (case c of Insert v \<Rightarrow> insert v (set (inorder t))
                                 | Remove v \<Rightarrow> set (inorder t) - {v})"
proof (cases c)
  case (Insert v)
  from insert_tree_avl [OF assms(1), of v] obtain t' where
    t': "insert_tree t v = Inr t'" "avl t'" "set (inorder t') = insert v (set (inorder t))"
    by blast
  with insert_tree_bst [OF assms(2) t'(1)] Insert show ?thesis by simp
next
  case (Remove v)
  from remove_avl [OF assms(1), of v] obtain t' where
    t': "remove t v = Inr t'" "avl t'"
    by blast
  with remove_bst [OF assms(2) t'(1)] Remove show ?thesis by simp
qed


lemma apply_call_effect:
  assumes "avl t" "bst t"
  shows "\<exists>t'. apply_call t c = Inr t' \<and> avl t' \<and> bst t' \<and>
     set (inorder t') = effect (set (inorder t)) c"
  using apply_call_inv [OF assms, of c] by (cases c) auto

lemma run_invariants:
  "avl t \<Longrightarrow> bst t \<Longrightarrow>
   \<exists>t'. run t cs = Inr t' \<and> avl t' \<and> bst t' \<and>
        set (inorder t') = foldl effect (set (inorder t)) cs"
proof (induction cs arbitrary: t)
  case Nil
  then show ?case by simp
next
  case (Cons c cs)
  from apply_call_effect [OF Cons.prems, of c] obtain t1 where
    t1: "apply_call t c = Inr t1" "avl t1" "bst t1"
        "set (inorder t1) = effect (set (inorder t)) c"
    by blast
  from Cons.IH [OF t1(2,3)] t1(1,4) show ?case by simp
qed

lemma inserted_not_removed_Nil [simp]: "\<not> inserted_not_removed [] v"
  by (simp add: inserted_not_removed_def)

lemma inserted_not_removed_Cons:
  "inserted_not_removed (c # cs) v \<longleftrightarrow>
     (c = Insert v \<and> Remove v \<notin> set cs) \<or> inserted_not_removed cs v"
proof
  assume "inserted_not_removed (c # cs) v"
  then obtain i where i: "i < Suc (length cs)" "(c # cs) ! i = Insert v"
    "Remove v \<notin> set (drop (Suc i) (c # cs))"
    by (auto simp: inserted_not_removed_def)
  show "(c = Insert v \<and> Remove v \<notin> set cs) \<or> inserted_not_removed cs v"
  proof (cases i)
    case 0
    with i show ?thesis by simp
  next
    case (Suc k)
    with i have "k < length cs" "cs ! k = Insert v" "Remove v \<notin> set (drop (Suc k) cs)"
      by simp_all
    then have "inserted_not_removed cs v"
      by (auto simp: inserted_not_removed_def)
    then show ?thesis ..
  qed
next
  assume "(c = Insert v \<and> Remove v \<notin> set cs) \<or> inserted_not_removed cs v"
  then show "inserted_not_removed (c # cs) v"
  proof
    assume "c = Insert v \<and> Remove v \<notin> set cs"
    then have "0 < Suc (length cs) \<and> (c # cs) ! 0 = Insert v \<and>
               Remove v \<notin> set (drop (Suc 0) (c # cs))"
      by simp
    then show ?thesis
      unfolding inserted_not_removed_def by (metis length_Cons lessThan_iff)
  next
    assume "inserted_not_removed cs v"
    then obtain k where "k < length cs" "cs ! k = Insert v" "Remove v \<notin> set (drop (Suc k) cs)"
      by (auto simp: inserted_not_removed_def)
    then have "Suc k < Suc (length cs) \<and> (c # cs) ! Suc k = Insert v \<and>
               Remove v \<notin> set (drop (Suc (Suc k)) (c # cs))"
      by simp
    then show ?thesis
      unfolding inserted_not_removed_def by (metis length_Cons lessThan_iff)
  qed
qed

lemma foldl_effect_member:
  "v \<in> foldl effect S cs \<longleftrightarrow> inserted_not_removed cs v \<or> (v \<in> S \<and> Remove v \<notin> set cs)"
proof (induction cs arbitrary: S)
  case Nil
  show ?case by simp
next
  case (Cons c cs)
  show ?case
    by (cases c) (auto simp: Cons.IH inserted_not_removed_Cons)
qed


section \<open>Calls that change nothing\<close>

text \<open>
  Rebuilding a node of a balanced tree from unchanged children gives an equal node, and
  \<open>balance\<close> returns it as it is.
\<close>

lemma avl_node_rebuild:
  "avl (InnerNode v l r h) \<Longrightarrow> balance (mk_node v l r) = Inr (InnerNode v l r h)"
  by (simp add: avl_InnerNode balance_in_range) (simp add: mk_node_def)

lemma insert_tree_present:
  "avl t \<Longrightarrow> contains t x \<Longrightarrow> insert_tree t x = Inr t"
proof (induction t)
  case Empty
  then show ?case by simp
next
  case (InnerNode v l r h)
  from InnerNode.prems(1) have sub: "avl l" "avl r"
    by (simp_all add: avl_InnerNode)
  consider (eq) "v = x" | (lt) "x < v" | (gt) "v < x"
    by (metis not_less_iff_gr_or_eq)
  then show ?case
  proof cases
    case eq
    then show ?thesis by simp
  next
    case lt
    with InnerNode.prems(2) have "contains l x" by auto
    with InnerNode.IH(1) sub(1) have "insert_tree l x = Inr l" by simp
    with lt avl_node_rebuild [OF InnerNode.prems(1)] show ?thesis by auto
  next
    case gt
    then have "\<not> x < v" by simp
    with gt InnerNode.prems(2) have "contains r x" by auto
    with InnerNode.IH(2) sub(2) have "insert_tree r x = Inr r" by simp
    with gt avl_node_rebuild [OF InnerNode.prems(1)] show ?thesis by auto
  qed
qed

lemma remove_absent:
  "avl t \<Longrightarrow> \<not> contains t x \<Longrightarrow> remove t x = Inr t"
proof (induction t)
  case Empty
  then show ?case by simp
next
  case (InnerNode v l r h)
  from InnerNode.prems(1) have sub: "avl l" "avl r"
    by (simp_all add: avl_InnerNode)
  from InnerNode.prems(2) have ne: "v \<noteq> x" by auto
  then consider (lt) "x < v" | (gt) "v < x"
    by (metis not_less_iff_gr_or_eq)
  then show ?case
  proof cases
    case lt
    with InnerNode.prems(2) ne have "\<not> contains l x" by auto
    with InnerNode.IH(1) sub(1) have "remove l x = Inr l" by simp
    with lt avl_node_rebuild [OF InnerNode.prems(1)] show ?thesis by auto
  next
    case gt
    then have "\<not> x < v" by simp
    with gt InnerNode.prems(2) ne have "\<not> contains r x" by auto
    with InnerNode.IH(2) sub(2) have "remove r x = Inr r" by simp
    with gt avl_node_rebuild [OF InnerNode.prems(1)] show ?thesis by auto
  qed
qed

section \<open>Invariants of every reachable tree\<close>

text \<open>
  Claim C1. Every sequence of \<open>insert\<close> and \<open>remove\<close> calls starting from the empty tree
  runs without an exception, and in the tree it returns every inner node has a balance
  factor \<open>height(right) - height(left)\<close> of \<open>-1\<close>, \<open>0\<close> or \<open>1\<close>. The heights are the
  cached ones, which are also shown to be the real ones.
\<close>

theorem reachable_balanced:
  "\<exists>t. run Empty cs = Inr t \<and> balanced t \<and> height_ok t"
  using run_invariants [of Empty cs] by (auto simp: avl_def)

text \<open>
  Claim C2. In every tree produced from the empty tree by a sequence of \<open>insert\<close> and
  \<open>remove\<close> calls, every inner node has only smaller values in its left subtree and only
  greater values in its right subtree, and no value occurs twice.
\<close>

theorem reachable_bst:
  "\<exists>t. run Empty cs = Inr t \<and> bst t \<and> distinct (inorder t)"
proof -
  from run_invariants [of Empty cs] obtain t where t: "run Empty cs = Inr t" "bst t"
    by auto
  from t(2) have "sorted_wrt (<) (inorder t)" by (simp add: bst_sorted)
  then have "distinct (inorder t)" by (simp add: strict_sorted_iff)
  with t show ?thesis by blast
qed

theorem reachable_bst_witness:
  "run Empty [Insert (2::int), Insert 1, Insert 3, Remove 2] =
     Inr (InnerNode 1 Empty (InnerNode 3 Empty Empty 1) 2) \<and>
   bst (InnerNode (1::int) Empty (InnerNode 3 Empty Empty 1) 2) \<and>
   distinct (inorder (InnerNode (1::int) Empty (InnerNode 3 Empty Empty 1) 2))"
proof -
  have "run Empty [Insert (2::int), Insert 1, Insert 3, Remove 2] =
     Inr (InnerNode 1 Empty (InnerNode 3 Empty Empty 1) 2)"
    by code_simp
  with reachable_bst [of "[Insert (2::int), Insert 1, Insert 3, Remove 2]"] show ?thesis
    by simp
qed

text \<open>
  Claim C3. After any sequence of \<open>insert\<close> and \<open>remove\<close> calls starting from the empty
  tree, \<open>contains\<close> is true of a value exactly when some call inserted it and no later
  call removed it.
\<close>

theorem membership_correct:
  "\<exists>t. run Empty cs = Inr t \<and> (\<forall>v. contains t v = inserted_not_removed cs v)"
proof -
  from run_invariants [of Empty cs] obtain t where t: "run Empty cs = Inr t" "bst t"
    "set (inorder t) = foldl effect {} cs"
    by auto
  from t(2,3) have "contains t v = inserted_not_removed cs v" for v
    by (simp add: contains_iff foldl_effect_member)
  with t(1) show ?thesis by blast
qed

theorem membership_correct_witness:
  "\<exists>t. run Empty [Insert (2::int), Insert 1, Insert 3, Remove 2] = Inr t \<and>
       contains t 2 = False \<and> contains t 3 = True \<and>
       inserted_not_removed [Insert (2::int), Insert 1, Insert 3, Remove 2] 2 = False \<and>
       inserted_not_removed [Insert (2::int), Insert 1, Insert 3, Remove 2] 3 = True"
proof -
  have "inserted_not_removed [Insert (2::int), Insert 1, Insert 3, Remove 2] 2 = False"
    by code_simp
  moreover have "inserted_not_removed [Insert (2::int), Insert 1, Insert 3, Remove 2] 3 = True"
    by code_simp
  ultimately show ?thesis
    using membership_correct [of "[Insert (2::int), Insert 1, Insert 3, Remove 2]"]
    by auto
qed

text \<open>
  Claim C10. For a tree that satisfies the search-tree order, height consistency and
  balance, \<open>insert\<close> returns a tree of the same height or one more, and \<open>remove\<close> returns
  a tree of the same height or one less.
\<close>

theorem height_change:
  assumes "bst t" "height_ok t" "balanced t"
  shows "(\<exists>t'. insert_tree t v = Inr t' \<and> (height t' = height t \<or> height t' = height t + 1)) \<and>
         (\<exists>t'. remove t v = Inr t' \<and> (height t' = height t \<or> height t' = height t - 1))"
proof -
  from assms have "avl t" by (simp add: avl_def)
  with insert_tree_avl [of t v] remove_avl [of t v] show ?thesis by blast
qed

theorem height_change_witness:
  "bst (InnerNode (2::int) (InnerNode 1 Empty Empty 1) (InnerNode 3 Empty Empty 1) 2) \<and>
   height_ok (InnerNode (2::int) (InnerNode 1 Empty Empty 1) (InnerNode 3 Empty Empty 1) 2) \<and>
   balanced (InnerNode (2::int) (InnerNode 1 Empty Empty 1) (InnerNode 3 Empty Empty 1) 2) \<and>
   (\<exists>t'. insert_tree (InnerNode (2::int) (InnerNode 1 Empty Empty 1) (InnerNode 3 Empty Empty 1) 2) 4
           = Inr t' \<and> (height t' = 2 \<or> height t' = 2 + 1)) \<and>
   (\<exists>t'. remove (InnerNode (2::int) (InnerNode 1 Empty Empty 1) (InnerNode 3 Empty Empty 1) 2) 4
           = Inr t' \<and> (height t' = 2 \<or> height t' = 2 - 1))"
proof -
  let ?T = "InnerNode (2::int) (InnerNode 1 Empty Empty 1) (InnerNode 3 Empty Empty 1) 2"
  have h: "bst ?T" "height_ok ?T" "balanced ?T"
    by (simp_all add: bf_def)
  have "height ?T = 2" by simp
  with height_change [OF h, of 4] h show ?thesis
    by metis
qed

section \<open>Exceptions\<close>

text \<open>
  Claim C9. The value of the empty tree raises \<open>AttributeError\<close>, and \<open>rightmost\<close> of the
  empty tree raises \<open>AssertionError\<close>. On a valid tree (height-consistent, balanced and
  ordered) \<open>insert\<close> and \<open>remove\<close> return a tree and raise nothing; \<open>contains\<close> has no
  raising branch at all, so it returns a truth value for every tree. Searching for an
  absent value gives \<open>False\<close>, removing an absent value gives a tree equal to the
  argument (same values, shape and heights), and so does inserting a value that is
  present. Which objects that tree consists of is the subject of claims C4 and C5.
\<close>

theorem raises_only_on_empty:
  "value_of (Empty :: 'a tree) = Inl AttributeError \<and>
   rightmost (Empty :: 'a tree) = Inl AssertionError \<and>
   (height_ok t \<and> balanced t \<and> bst t \<longrightarrow>
      (\<exists>t'. insert_tree t v = Inr t') \<and>
      (\<exists>t'. remove t v = Inr t') \<and>
      (v \<notin> set (inorder t) \<longrightarrow> contains t v = False \<and> remove t v = Inr t) \<and>
      (v \<in> set (inorder t) \<longrightarrow> insert_tree t v = Inr t))"
proof -
  have "value_of (Empty :: 'a tree) = Inl AttributeError" by simp
  moreover have "rightmost (Empty :: 'a tree) = Inl AssertionError"
    by (simp add: rightmost_def)
  moreover {
    assume a: "height_ok t" "balanced t" "bst t"
    then have avl: "avl t" by (simp add: avl_def)
    from insert_tree_avl [OF avl, of v] have 1: "\<exists>t'. insert_tree t v = Inr t'" by blast
    from remove_avl [OF avl, of v] have 2: "\<exists>t'. remove t v = Inr t'" by blast
    from avl a(3) have 3: "v \<notin> set (inorder t) \<longrightarrow> contains t v = False \<and> remove t v = Inr t"
      by (simp add: contains_iff remove_absent)
    from avl a(3) have 4: "v \<in> set (inorder t) \<longrightarrow> insert_tree t v = Inr t"
      by (simp add: contains_iff insert_tree_present)
    note 1 2 3 4
  }
  ultimately show ?thesis by blast
qed


theorem raises_only_on_empty_witness:
  "height_ok (InnerNode (2::int) (InnerNode 1 Empty Empty 1) (InnerNode 3 Empty Empty 1) 2) \<and>
   balanced (InnerNode (2::int) (InnerNode 1 Empty Empty 1) (InnerNode 3 Empty Empty 1) 2) \<and>
   bst (InnerNode (2::int) (InnerNode 1 Empty Empty 1) (InnerNode 3 Empty Empty 1) 2) \<and>
   (4::int) \<notin> set (inorder (InnerNode 2 (InnerNode 1 Empty Empty 1) (InnerNode 3 Empty Empty 1) 2)) \<and>
   (3::int) \<in> set (inorder (InnerNode 2 (InnerNode 1 Empty Empty 1) (InnerNode 3 Empty Empty 1) 2)) \<and>
   contains (InnerNode (2::int) (InnerNode 1 Empty Empty 1) (InnerNode 3 Empty Empty 1) 2) 4 = False \<and>
   remove (InnerNode (2::int) (InnerNode 1 Empty Empty 1) (InnerNode 3 Empty Empty 1) 2) 4 =
     Inr (InnerNode 2 (InnerNode 1 Empty Empty 1) (InnerNode 3 Empty Empty 1) 2) \<and>
   insert_tree (InnerNode (2::int) (InnerNode 1 Empty Empty 1) (InnerNode 3 Empty Empty 1) 2) 3 =
     Inr (InnerNode 2 (InnerNode 1 Empty Empty 1) (InnerNode 3 Empty Empty 1) 2)"
proof -
  let ?T = "InnerNode (2::int) (InnerNode 1 Empty Empty 1) (InnerNode 3 Empty Empty 1) 2"
  have h: "height_ok ?T \<and> balanced ?T \<and> bst ?T"
    by (simp add: bf_def)
  have m: "(4::int) \<notin> set (inorder ?T)" "(3::int) \<in> set (inorder ?T)"
    by simp_all
  from raises_only_on_empty [of ?T 4] raises_only_on_empty [of ?T 3] h m show ?thesis
    by blast
qed

section \<open>Agreement of the two embeddings, and the copied path\<close>

lemma forget_Inr [simp]: "forget (Inr (t, s)) = Inr (erase t)"
  by (simp add: forget_def)

lemma forget_Inl [simp]: "forget (Inl e) = Inl e"
  by (simp add: forget_def)

lemma forget_eq_Inr: "forget m = Inr u \<longleftrightarrow> (\<exists>t s. m = Inr (t, s) \<and> erase t = u)"
  by (cases m) auto

lemma forget_bind:
  "(\<And>t s. forget (f (t, s)) = g (erase t)) \<Longrightarrow> forget (bind_r m f) = bind_r (forget m) g"
  by (cases m) auto

lemma erase_value_of [simp]: "value_of (erase t) = value_of_o t"
  by (cases t) simp_all

lemma erase_height [simp]: "height (erase t) = height_o t"
  by (cases t) simp_all

lemma erase_left [simp]: "left (erase t) = erase (left_o t)"
  by (cases t) simp_all

lemma erase_right [simp]: "right (erase t) = erase (right_o t)"
  by (cases t) simp_all

lemma erase_bf [simp]: "bf (erase t) = bf_o t"
  by (simp add: bf_def bf_o_def)

lemma erase_Empty_iff [simp]: "erase t = Empty \<longleftrightarrow> t = OEmpty"
  by (cases t) simp_all

lemma erase_new_node:
  "new_node v l r s = (m, s') \<Longrightarrow> erase m = mk_node v (erase l) (erase r)"
  by (auto simp: new_node_def mk_node_def)

lemma erase_rot_left: "forget (rot_left_o n s) = rot_left (erase n)"
  by (cases "value_of_o (right_o n)"; cases "value_of_o n")
     (auto simp: rot_left_o_def rot_left_def new_node_def mk_node_def)

lemma erase_rot_right: "forget (rot_right_o n s) = rot_right (erase n)"
  by (cases "value_of_o (left_o n)"; cases "value_of_o n")
     (auto simp: rot_right_o_def rot_right_def new_node_def mk_node_def)


lemma erase_rot_right_new:
  "new_node v l r s = (m, s') \<Longrightarrow>
   forget (rot_right_o m s') = rot_right (mk_node v (erase l) (erase r))"
  by (simp add: erase_rot_right erase_new_node)

lemma erase_rot_left_new:
  "new_node v l r s = (m, s') \<Longrightarrow>
   forget (rot_left_o m s') = rot_left (mk_node v (erase l) (erase r))"
  by (simp add: erase_rot_left erase_new_node)

lemma erase_balance: "forget (balance_o n s) = balance (erase n)"
proof -
  have dl: "forget (bind_r (rot_left_o (left_o n) s) (\<lambda>(l', s1).
              case new_node v l' (right_o n) s1 of (m, s2) \<Rightarrow> rot_right_o m s2)) =
            bind_r (rot_left (erase (left_o n))) (\<lambda>l'. rot_right (mk_node v l' (erase (right_o n))))"
    for v
  proof (cases "rot_left_o (left_o n) s")
    case (Inl e)
    with erase_rot_left [of "left_o n" s, symmetric] show ?thesis by simp
  next
    case (Inr p)
    obtain l' s1 where p: "p = (l', s1)" by (cases p)
    obtain m s2 where m: "new_node v l' (right_o n) s1 = (m, s2)"
      by (cases "new_node v l' (right_o n) s1")
    from Inr p erase_rot_left [of "left_o n" s, symmetric] have "rot_left (erase (left_o n)) = Inr (erase l')"
      by simp
    with Inr p m erase_rot_right_new [OF m] show ?thesis by simp
  qed
  have dr: "forget (bind_r (rot_right_o (right_o n) s) (\<lambda>(r', s1).
              case new_node v (left_o n) r' s1 of (m, s2) \<Rightarrow> rot_left_o m s2)) =
            bind_r (rot_right (erase (right_o n))) (\<lambda>r'. rot_left (mk_node v (erase (left_o n)) r'))"
    for v
  proof (cases "rot_right_o (right_o n) s")
    case (Inl e)
    with erase_rot_right [of "right_o n" s, symmetric] show ?thesis by simp
  next
    case (Inr p)
    obtain r' s1 where p: "p = (r', s1)" by (cases p)
    obtain m s2 where m: "new_node v (left_o n) r' s1 = (m, s2)"
      by (cases "new_node v (left_o n) r' s1")
    from Inr p erase_rot_right [of "right_o n" s, symmetric] have "rot_right (erase (right_o n)) = Inr (erase r')"
      by simp
    with Inr p m erase_rot_left_new [OF m] show ?thesis by simp
  qed
  show ?thesis
  proof (cases "value_of_o n")
    case (Inl e)
    then have "n = OEmpty" by (cases n) simp_all
    then show ?thesis by (simp add: balance_o_def balance_def bf_o_def bf_def)
  next
    case (Inr v)
    with dl [of v] dr [of v] show ?thesis
      by (simp add: balance_o_def balance_def erase_rot_left erase_rot_right)
  qed
qed


lemma erase_rebuild:
  "forget (case new_node v l r s of (m, s') \<Rightarrow> balance_o m s') =
   balance (mk_node v (erase l) (erase r))"
proof -
  obtain m s' where m: "new_node v l r s = (m, s')" by (cases "new_node v l r s")
  with erase_balance [of m s'] erase_new_node [OF m] show ?thesis by simp
qed

lemma erase_step:
  assumes "forget m = m'"
  shows "forget (bind_r m (\<lambda>(l', s1). case new_node v l' r s1 of (n, s2) \<Rightarrow> balance_o n s2)) =
         bind_r m' (\<lambda>l'. balance (mk_node v l' (erase r)))"
    and "forget (bind_r m (\<lambda>(r', s1). case new_node v l r' s1 of (n, s2) \<Rightarrow> balance_o n s2)) =
         bind_r m' (\<lambda>r'. balance (mk_node v (erase l) r'))"
  using assms by (cases m; auto simp: erase_rebuild)+

lemma erase_insert: "forget (insert_o t x s) = insert_tree (erase t) x"
proof (induction t arbitrary: s)
  case OEmpty
  show ?case by (simp add: new_node_def mk_node_def)
next
  case (ONode i v l r h)
  show ?case
    by (simp add: erase_step [OF ONode.IH(1)] erase_step [OF ONode.IH(2)])
qed

lemma erase_rightmost_loop: "rightmost_loop_o t = rightmost_loop (erase t)"
  by (induction t) simp_all

lemma erase_rightmost: "rightmost_o t = rightmost (erase t)"
  by (simp add: rightmost_o_def rightmost_def erase_rightmost_loop)

lemma erase_remove: "forget (remove_o t x s) = remove (erase t) x"
proof (induction t arbitrary: x s)
  case OEmpty
  show ?case by simp
next
  case (ONode i v l r h)
  have pred: "forget (bind_r (rightmost_o l) (\<lambda>y.
                bind_r (remove_o l y s) (\<lambda>(l', s1).
                  case new_node y l' r s1 of (m, s2) \<Rightarrow> balance_o m s2))) =
              bind_r (rightmost (erase l)) (\<lambda>y.
                bind_r (remove (erase l) y) (\<lambda>l'. balance (mk_node y l' (erase r))))"
    by (cases "rightmost (erase l)")
       (simp_all add: erase_rightmost erase_step [OF ONode.IH(1)])
  show ?case
    by (simp add: erase_step [OF ONode.IH(1)] erase_step [OF ONode.IH(2)] pred)
qed

lemma erase_run: "forget (run_o t cs s) = run (erase t) cs"
proof (induction cs arbitrary: t s)
  case Nil
  show ?case by simp
next
  case (Cons c cs)
  have step: "forget (apply_call_o t c s) = apply_call (erase t) c"
    by (cases c) (simp_all add: erase_insert erase_remove)
  show ?case
  proof (cases "apply_call_o t c s")
    case (Inl e)
    with step [symmetric] show ?thesis by simp
  next
    case (Inr p)
    obtain t1 s1 where p: "p = (t1, s1)" by (cases p)
    with Inr step [symmetric] Cons.IH [of t1 s1] show ?thesis by simp
  qed
qed


text \<open>
  A call that leaves the contents unchanged still copies the search path.
\<close>

lemma erase_eq_height: "erase t' = erase t \<Longrightarrow> height_o t' = height_o t"
  by (metis erase_height)

lemma rebuild_unchanged:
  assumes "avl (InnerNode v (erase l) (erase r) h)"
    and "height_o l' = height_o l" and "height_o r' = height_o r"
  shows "(case new_node v l' r' s of (m, s') \<Rightarrow> balance_o m s') =
         Inr (ONode (allocated s) v l' r' h, s\<lparr>allocated := allocated s + 1\<rparr>)"
  using assms by (simp add: new_node_def balance_o_def bf_o_def avl_InnerNode)

lemma insert_o_present:
  "avl (erase t) \<Longrightarrow> contains (erase t) x \<Longrightarrow>
   \<exists>t'. insert_o t x s = Inr (t', s\<lparr>allocated := allocated s + search_depth (erase t) x\<rparr>) \<and>
        erase t' = erase t \<and> path_copied (allocated s) x t t'"
proof (induction t arbitrary: s)
  case OEmpty
  then show ?case by simp
next
  case (ONode i v l r h)
  from ONode.prems(1) have node: "avl (InnerNode v (erase l) (erase r) h)" by simp
  then have sub: "avl (erase l)" "avl (erase r)" by (simp_all add: avl_InnerNode)
  consider (eq) "v = x" | (lt) "x < v" | (gt) "v < x"
    by (metis not_less_iff_gr_or_eq)
  then show ?case
  proof cases
    case eq
    then show ?thesis by simp
  next
    case lt
    with ONode.prems(2) have "contains (erase l) x" by auto
    from ONode.IH(1) [OF sub(1) this, of s] obtain l' where
      l': "insert_o l x s = Inr (l', s\<lparr>allocated := allocated s + search_depth (erase l) x\<rparr>)"
          "erase l' = erase l" "path_copied (allocated s) x l l'"
      by blast
    from l'(2) have "height_o l' = height_o l" by (rule erase_eq_height)
    from rebuild_unchanged [OF node this refl] lt l' show ?thesis
      by auto
  next
    case gt
    then have nlt: "\<not> x < v" "v \<noteq> x" by simp_all
    with ONode.prems(2) have "contains (erase r) x" by auto
    from ONode.IH(2) [OF sub(2) this, of s] obtain r' where
      r': "insert_o r x s = Inr (r', s\<lparr>allocated := allocated s + search_depth (erase r) x\<rparr>)"
          "erase r' = erase r" "path_copied (allocated s) x r r'"
      by blast
    from r'(2) have "height_o r' = height_o r" by (rule erase_eq_height)
    from rebuild_unchanged [OF node refl this] gt nlt r' show ?thesis
      by auto
  qed
qed

lemma remove_o_absent:
  "avl (erase t) \<Longrightarrow> \<not> contains (erase t) x \<Longrightarrow>
   \<exists>t'. remove_o t x s = Inr (t', s\<lparr>allocated := allocated s + search_depth (erase t) x\<rparr>) \<and>
        erase t' = erase t \<and> path_copied (allocated s) x t t'"
proof (induction t arbitrary: s)
  case OEmpty
  then show ?case by simp
next
  case (ONode i v l r h)
  from ONode.prems(1) have node: "avl (InnerNode v (erase l) (erase r) h)" by simp
  then have sub: "avl (erase l)" "avl (erase r)" by (simp_all add: avl_InnerNode)
  from ONode.prems(2) have ne: "v \<noteq> x" by auto
  then consider (lt) "x < v" | (gt) "v < x"
    by (metis not_less_iff_gr_or_eq)
  then show ?case
  proof cases
    case lt
    with ONode.prems(2) ne have "\<not> contains (erase l) x" by auto
    from ONode.IH(1) [OF sub(1) this, of s] obtain l' where
      l': "remove_o l x s = Inr (l', s\<lparr>allocated := allocated s + search_depth (erase l) x\<rparr>)"
          "erase l' = erase l" "path_copied (allocated s) x l l'"
      by blast
    from l'(2) have "height_o l' = height_o l" by (rule erase_eq_height)
    from rebuild_unchanged [OF node this refl] lt ne l' show ?thesis
      by auto
  next
    case gt
    then have nlt: "\<not> x < v" by simp
    with ONode.prems(2) ne have "\<not> contains (erase r) x" by auto
    from ONode.IH(2) [OF sub(2) this, of s] obtain r' where
      r': "remove_o r x s = Inr (r', s\<lparr>allocated := allocated s + search_depth (erase r) x\<rparr>)"
          "erase r' = erase r" "path_copied (allocated s) x r r'"
      by blast
    from r'(2) have "height_o r' = height_o r" by (rule erase_eq_height)
    from rebuild_unchanged [OF node refl this] gt nlt ne r' show ?thesis
      by auto
  qed
qed

lemma path_copied_same_iff:
  "ids_below k t \<Longrightarrow> path_copied k x t t' \<Longrightarrow> t' = t \<longleftrightarrow> (t = OEmpty \<or> value_of_o t = Inr x)"
  by (cases t; cases t') (auto split: if_splits)


text \<open>
  Identities stay fresh: if every node of the argument was created before, so was every
  node of the result, and the count of created objects never decreases.
\<close>

lemma ids_below_mono: "ids_below k t \<Longrightarrow> k \<le> k' \<Longrightarrow> ids_below k' t"
  by (induction t) auto

lemma ids_below_Suc [simp]: "ids_below k t \<Longrightarrow> ids_below (Suc k) t"
  by (erule ids_below_mono) simp

lemma ids_below_left: "ids_below k t \<Longrightarrow> ids_below k (left_o t)"
  by (cases t) simp_all

lemma ids_below_right: "ids_below k t \<Longrightarrow> ids_below k (right_o t)"
  by (cases t) simp_all

lemma new_node_ids:
  assumes "new_node v l r s = (m, s')" "ids_below (allocated s) l" "ids_below (allocated s) r"
  shows "ids_below (allocated s') m \<and> allocated s \<le> allocated s'"
  using assms by (auto simp: new_node_def)

lemma rot_left_o_ids:
  assumes "rot_left_o n s = Inr (t', s')" "ids_below (allocated s) n"
  shows "ids_below (allocated s') t' \<and> allocated s \<le> allocated s'"
proof -
  from assms(2) have "ids_below (allocated s) (left_o n)"
    "ids_below (allocated s) (left_o (right_o n))" "ids_below (allocated s) (right_o (right_o n))"
    by (simp_all add: ids_below_left ids_below_right)
  with assms(1) show ?thesis
    by (auto simp: rot_left_o_def new_node_def bind_r_eq_Inr)
qed

lemma rot_right_o_ids:
  assumes "rot_right_o n s = Inr (t', s')" "ids_below (allocated s) n"
  shows "ids_below (allocated s') t' \<and> allocated s \<le> allocated s'"
proof -
  from assms(2) have "ids_below (allocated s) (right_o n)"
    "ids_below (allocated s) (left_o (left_o n))" "ids_below (allocated s) (right_o (left_o n))"
    by (simp_all add: ids_below_left ids_below_right)
  with assms(1) show ?thesis
    by (auto simp: rot_right_o_def new_node_def bind_r_eq_Inr)
qed

lemma balance_o_ids:
  assumes "balance_o n s = Inr (t', s')" "ids_below (allocated s) n"
  shows "ids_below (allocated s') t' \<and> allocated s \<le> allocated s'"
proof -
  note sub = ids_below_left [OF assms(2)] ids_below_right [OF assms(2)]
  consider (lr) "bf_o n \<le> - 2" "bf_o (left_o n) > 0"
    | (r) "bf_o n \<le> - 2" "\<not> bf_o (left_o n) > 0"
    | (rl) "\<not> bf_o n \<le> - 2" "bf_o n \<ge> 2" "bf_o (right_o n) < 0"
    | (l) "\<not> bf_o n \<le> - 2" "bf_o n \<ge> 2" "\<not> bf_o (right_o n) < 0"
    | (ok) "\<not> bf_o n \<le> - 2" "\<not> bf_o n \<ge> 2"
    by blast
  then show ?thesis
  proof cases
    case lr
    with assms(1) obtain v l1 s1 where
      a: "rot_left_o (left_o n) s = Inr (l1, s1)"
         "(case new_node v l1 (right_o n) s1 of (m, s2) \<Rightarrow> rot_right_o m s2) = Inr (t', s')"
      by (auto simp: balance_o_def bind_r_eq_Inr)
    obtain m s2 where m: "new_node v l1 (right_o n) s1 = (m, s2)"
      by (cases "new_node v l1 (right_o n) s1")
    with a have st: "rot_left_o (left_o n) s = Inr (l1, s1)"
      "new_node v l1 (right_o n) s1 = (m, s2)" "rot_right_o m s2 = Inr (t', s')"
      by simp_all
    from rot_left_o_ids [OF st(1) sub(1)] have 1: "ids_below (allocated s1) l1"
      "allocated s \<le> allocated s1" by simp_all
    from ids_below_mono [OF sub(2) 1(2)] new_node_ids [OF st(2) 1(1)]
    have 2: "ids_below (allocated s2) m" "allocated s1 \<le> allocated s2" by simp_all
    from rot_right_o_ids [OF st(3) 2(1)] 1(2) 2(2) show ?thesis by simp
  next
    case r
    with assms(1) have "rot_right_o n s = Inr (t', s')" by (simp add: balance_o_def)
    from rot_right_o_ids [OF this assms(2)] show ?thesis .
  next
    case rl
    with assms(1) obtain v r1 s1 where
      a: "rot_right_o (right_o n) s = Inr (r1, s1)"
         "(case new_node v (left_o n) r1 s1 of (m, s2) \<Rightarrow> rot_left_o m s2) = Inr (t', s')"
      by (auto simp: balance_o_def bind_r_eq_Inr)
    obtain m s2 where m: "new_node v (left_o n) r1 s1 = (m, s2)"
      by (cases "new_node v (left_o n) r1 s1")
    with a have st: "rot_right_o (right_o n) s = Inr (r1, s1)"
      "new_node v (left_o n) r1 s1 = (m, s2)" "rot_left_o m s2 = Inr (t', s')"
      by simp_all
    from rot_right_o_ids [OF st(1) sub(2)] have 1: "ids_below (allocated s1) r1"
      "allocated s \<le> allocated s1" by simp_all
    from ids_below_mono [OF sub(1) 1(2)] new_node_ids [OF st(2) _ 1(1)]
    have 2: "ids_below (allocated s2) m" "allocated s1 \<le> allocated s2" by simp_all
    from rot_left_o_ids [OF st(3) 2(1)] 1(2) 2(2) show ?thesis by simp
  next
    case l
    with assms(1) have "rot_left_o n s = Inr (t', s')" by (simp add: balance_o_def)
    from rot_left_o_ids [OF this assms(2)] show ?thesis .
  next
    case ok
    with assms show ?thesis by (simp add: balance_o_def)
  qed
qed

lemma rebuild_ids:
  assumes "(case new_node v l r s of (m, s2) \<Rightarrow> balance_o m s2) = Inr (t', s')"
    and "ids_below (allocated s) l" "ids_below (allocated s) r"
  shows "ids_below (allocated s') t' \<and> allocated s \<le> allocated s'"
proof -
  obtain m s2 where m: "new_node v l r s = (m, s2)" by (cases "new_node v l r s")
  from new_node_ids [OF m assms(2,3)] have 1: "ids_below (allocated s2) m"
    "allocated s \<le> allocated s2" by simp_all
  from assms(1) m have "balance_o m s2 = Inr (t', s')" by simp
  from balance_o_ids [OF this 1(1)] 1(2) show ?thesis by simp
qed

lemma insert_o_ids:
  "insert_o t x s = Inr (t', s') \<Longrightarrow> ids_below (allocated s) t \<Longrightarrow>
   ids_below (allocated s') t' \<and> allocated s \<le> allocated s'"
proof (induction t arbitrary: s t' s')
  case OEmpty
  then show ?case by (auto simp: new_node_def)
next
  case (ONode i v l r h)
  from ONode.prems(2) have sub: "ids_below (allocated s) l" "ids_below (allocated s) r"
    by simp_all
  consider (gt) "v < x" | (lt) "\<not> v < x" "x < v" | (eq) "\<not> v < x" "\<not> x < v"
    by blast
  then show ?case
  proof cases
    case gt
    with ONode.prems(1) obtain r1 s1 where
      st: "insert_o r x s = Inr (r1, s1)"
          "(case new_node v l r1 s1 of (m, s2) \<Rightarrow> balance_o m s2) = Inr (t', s')"
      by (auto simp: bind_r_eq_Inr)
    from ONode.IH(2) [OF st(1) sub(2)] have 1: "ids_below (allocated s1) r1"
      "allocated s \<le> allocated s1" by simp_all
    from rebuild_ids [OF st(2) ids_below_mono [OF sub(1) 1(2)] 1(1)] 1(2) show ?thesis
      by simp
  next
    case lt
    with ONode.prems(1) obtain l1 s1 where
      st: "insert_o l x s = Inr (l1, s1)"
          "(case new_node v l1 r s1 of (m, s2) \<Rightarrow> balance_o m s2) = Inr (t', s')"
      by (auto simp: bind_r_eq_Inr)
    from ONode.IH(1) [OF st(1) sub(1)] have 1: "ids_below (allocated s1) l1"
      "allocated s \<le> allocated s1" by simp_all
    from rebuild_ids [OF st(2) 1(1) ids_below_mono [OF sub(2) 1(2)]] 1(2) show ?thesis
      by simp
  next
    case eq
    with ONode.prems show ?thesis by auto
  qed
qed

lemma remove_o_ids:
  "remove_o t x s = Inr (t', s') \<Longrightarrow> ids_below (allocated s) t \<Longrightarrow>
   ids_below (allocated s') t' \<and> allocated s \<le> allocated s'"
proof (induction t arbitrary: x s t' s')
  case OEmpty
  then show ?case by auto
next
  case (ONode i v l r h)
  from ONode.prems(2) have sub: "ids_below (allocated s) l" "ids_below (allocated s) r"
    by simp_all
  have left_case: "ids_below (allocated s') t' \<and> allocated s \<le> allocated s'"
    if st: "remove_o l y s = Inr (l1, s1)"
           "(case new_node w l1 r s1 of (m, s2) \<Rightarrow> balance_o m s2) = Inr (t', s')"
    for y w l1 s1
  proof -
    from ONode.IH(1) [OF st(1) sub(1)] have 1: "ids_below (allocated s1) l1"
      "allocated s \<le> allocated s1" by simp_all
    from rebuild_ids [OF st(2) 1(1) ids_below_mono [OF sub(2) 1(2)]] 1(2) show ?thesis
      by simp
  qed
  consider (lt) "x < v" | (gt) "\<not> x < v" "v < x"
    | (el) "\<not> x < v" "\<not> v < x" "l = OEmpty"
    | (er) "\<not> x < v" "\<not> v < x" "l \<noteq> OEmpty" "r = OEmpty"
    | (both) "\<not> x < v" "\<not> v < x" "l \<noteq> OEmpty" "r \<noteq> OEmpty"
    by blast
  then show ?case
  proof cases
    case lt
    with ONode.prems(1) obtain l1 s1 where
      "remove_o l x s = Inr (l1, s1)"
      "(case new_node v l1 r s1 of (m, s2) \<Rightarrow> balance_o m s2) = Inr (t', s')"
      by (auto simp: bind_r_eq_Inr)
    then show ?thesis by (rule left_case)
  next
    case gt
    with ONode.prems(1) obtain r1 s1 where
      st: "remove_o r x s = Inr (r1, s1)"
          "(case new_node v l r1 s1 of (m, s2) \<Rightarrow> balance_o m s2) = Inr (t', s')"
      by (auto simp: bind_r_eq_Inr)
    from ONode.IH(2) [OF st(1) sub(2)] have 1: "ids_below (allocated s1) r1"
      "allocated s \<le> allocated s1" by simp_all
    from rebuild_ids [OF st(2) ids_below_mono [OF sub(1) 1(2)] 1(1)] 1(2) show ?thesis
      by simp
  next
    case el
    with ONode.prems(1) sub show ?thesis by auto
  next
    case er
    with ONode.prems(1) sub show ?thesis by auto
  next
    case both
    with ONode.prems(1) obtain y l1 s1 where
      "remove_o l y s = Inr (l1, s1)"
      "(case new_node y l1 r s1 of (m, s2) \<Rightarrow> balance_o m s2) = Inr (t', s')"
      by (auto simp: bind_r_eq_Inr)
    then show ?thesis by (rule left_case)
  qed
qed

lemma run_o_ids:
  "run_o t cs s = Inr (t', s') \<Longrightarrow> ids_below (allocated s) t \<Longrightarrow>
   ids_below (allocated s') t' \<and> allocated s \<le> allocated s'"
proof (induction cs arbitrary: t s)
  case Nil
  then show ?case by simp
next
  case (Cons c cs)
  from Cons.prems(1) obtain t1 s1 where
    st: "apply_call_o t c s = Inr (t1, s1)" "run_o t1 cs s1 = Inr (t', s')"
    by (auto simp: bind_r_eq_Inr)
  from st(1) Cons.prems(2) have 1: "ids_below (allocated s1) t1 \<and> allocated s \<le> allocated s1"
    by (cases c) (auto dest: insert_o_ids remove_o_ids)
  with Cons.IH [OF st(2)] show ?case by simp
qed

section \<open>Node identity\<close>

text \<open>
  Claim C4, as stated: removing a value that is not in the tree returns the very same
  nodes. It fails: after \<open>insert(Empty, 1)\<close> has created node 0, \<open>remove\<close> of the absent
  value 2 returns a newly created node 1.
\<close>

theorem remove_absent_same_node_counterexample:
  "insert_o OEmpty (1::int) \<lparr>allocated = 0, rotations = 0\<rparr> =
     Inr (ONode 0 1 OEmpty OEmpty 1, \<lparr>allocated = 1, rotations = 0\<rparr>) \<and>
   \<not> contains (erase (ONode 0 (1::int) OEmpty OEmpty 1)) 2 \<and>
   remove_o (ONode 0 (1::int) OEmpty OEmpty 1) 2 \<lparr>allocated = 1, rotations = 0\<rparr> =
     Inr (ONode 1 1 OEmpty OEmpty 1, \<lparr>allocated = 2, rotations = 0\<rparr>) \<and>
   ONode 1 (1::int) OEmpty OEmpty 1 \<noteq> ONode 0 1 OEmpty OEmpty 1"
  by (simp add: new_node_def balance_o_def bf_o_def)

text \<open>
  Claim C4, amended. For a height-consistent, balanced tree \<open>t\<close> whose nodes were all
  created earlier, and a value \<open>v\<close> not contained in \<open>t\<close>, \<open>remove(t, v)\<close> returns a tree
  with the same values, shape and heights as \<open>t\<close>, in which every node on the search
  path for \<open>v\<close> is a new object and every subtree off that path is shared with \<open>t\<close>; it
  performs no rotation, creates one node per node of the path, and returns \<open>t\<close> itself
  only when \<open>t\<close> is empty.
\<close>

theorem remove_absent_copies_path:
  assumes "height_ok (erase t)" "balanced (erase t)" "\<not> contains (erase t) v"
    and "ids_below (allocated s) t"
  shows "\<exists>t'. remove_o t v s =
               Inr (t', s\<lparr>allocated := allocated s + search_depth (erase t) v\<rparr>) \<and>
             erase t' = erase t \<and>
             path_copied (allocated s) v t t' \<and>
             (t' = t \<longleftrightarrow> t = OEmpty)"
proof -
  from assms(1,2) have "avl (erase t)" by (simp add: avl_def)
  from remove_o_absent [OF this assms(3), of s] obtain t' where
    t': "remove_o t v s = Inr (t', s\<lparr>allocated := allocated s + search_depth (erase t) v\<rparr>)"
        "erase t' = erase t" "path_copied (allocated s) v t t'"
    by blast
  from assms(3) have "value_of_o t \<noteq> Inr v" by (cases t) auto
  with path_copied_same_iff [OF assms(4) t'(3)] have "t' = t \<longleftrightarrow> t = OEmpty" by simp
  with t' show ?thesis by blast
qed

theorem remove_absent_copies_path_witness:
  "height_ok (erase (ONode 2 (1::int) OEmpty (ONode 1 2 OEmpty OEmpty 1) 2)) \<and>
   balanced (erase (ONode 2 (1::int) OEmpty (ONode 1 2 OEmpty OEmpty 1) 2)) \<and>
   \<not> contains (erase (ONode 2 (1::int) OEmpty (ONode 1 2 OEmpty OEmpty 1) 2)) 3 \<and>
   ids_below (allocated \<lparr>allocated = 3, rotations = 0\<rparr>)
     (ONode 2 (1::int) OEmpty (ONode 1 2 OEmpty OEmpty 1) 2) \<and>
   (\<exists>t'. remove_o (ONode 2 (1::int) OEmpty (ONode 1 2 OEmpty OEmpty 1) 2) 3
            \<lparr>allocated = 3, rotations = 0\<rparr> =
          Inr (t', \<lparr>allocated = 5, rotations = 0\<rparr>) \<and>
        erase t' = erase (ONode 2 (1::int) OEmpty (ONode 1 2 OEmpty OEmpty 1) 2) \<and>
        t' \<noteq> ONode 2 (1::int) OEmpty (ONode 1 2 OEmpty OEmpty 1) 2)"
proof -
  let ?T = "ONode 2 (1::int) OEmpty (ONode 1 2 OEmpty OEmpty 1) 2"
  let ?S = "\<lparr>allocated = 3, rotations = 0\<rparr>"
  have h: "height_ok (erase ?T)" "balanced (erase ?T)" "\<not> contains (erase ?T) 3"
    "ids_below (allocated ?S) ?T"
    by (simp_all add: bf_def)
  have d: "?S\<lparr>allocated := allocated ?S + search_depth (erase ?T) 3\<rparr> =
           \<lparr>allocated = 5, rotations = 0\<rparr>"
    by simp
  from remove_absent_copies_path [OF h] obtain t' where
    "remove_o ?T 3 ?S = Inr (t', ?S\<lparr>allocated := allocated ?S + search_depth (erase ?T) 3\<rparr>)"
    "erase t' = erase ?T" "t' = ?T \<longleftrightarrow> ?T = OEmpty"
    by blast
  with d have "remove_o ?T 3 ?S = Inr (t', \<lparr>allocated = 5, rotations = 0\<rparr>) \<and>
    erase t' = erase ?T \<and> t' \<noteq> ?T"
    by simp
  with h show ?thesis by blast
qed

text \<open>
  Claim C5, as stated: inserting a value that is already in the tree returns the original
  tree and creates no node, also when the call is repeated. It fails: the tree built by
  inserting 1 and 2 has the nodes 2 (root) and 1; inserting 2 again creates node 3 and
  returns it as the root.
\<close>

theorem insert_present_same_node_counterexample:
  "run_o OEmpty [Insert (1::int), Insert 2] \<lparr>allocated = 0, rotations = 0\<rparr> =
     Inr (ONode 2 1 OEmpty (ONode 1 2 OEmpty OEmpty 1) 2, \<lparr>allocated = 3, rotations = 0\<rparr>) \<and>
   contains (erase (ONode 2 (1::int) OEmpty (ONode 1 2 OEmpty OEmpty 1) 2)) 2 \<and>
   insert_o (ONode 2 (1::int) OEmpty (ONode 1 2 OEmpty OEmpty 1) 2) 2
       \<lparr>allocated = 3, rotations = 0\<rparr> =
     Inr (ONode 3 1 OEmpty (ONode 1 2 OEmpty OEmpty 1) 2, \<lparr>allocated = 4, rotations = 0\<rparr>) \<and>
   ONode 3 (1::int) OEmpty (ONode 1 2 OEmpty OEmpty 1) 2 \<noteq>
     ONode 2 1 OEmpty (ONode 1 2 OEmpty OEmpty 1) 2 \<and>
   \<not> ids_below 3 (ONode 3 (1::int) OEmpty (ONode 1 2 OEmpty OEmpty 1) 2)"
  by (simp add: new_node_def balance_o_def bf_o_def)

text \<open>
  Claim C5, amended. For a valid tree \<open>t\<close> whose nodes were all created earlier:
  if \<open>v\<close> is contained in \<open>t\<close>, then \<open>insert(t, v)\<close> returns a tree with the same values,
  shape and heights as \<open>t\<close>, in which the node holding \<open>v\<close> and every subtree off the
  search path are shared with \<open>t\<close> and each node above the one holding \<open>v\<close> is a new
  object, so that \<open>t\<close> itself is returned exactly when \<open>v\<close> is at its root. For every
  \<open>v\<close>, \<open>insert(insert(t, v), v)\<close> has the same contents, hence the same membership set,
  as \<open>insert(t, v)\<close>, and the second call again copies the nodes above the one holding
  \<open>v\<close>.
\<close>

theorem insert_present_copies_path:
  assumes "height_ok (erase t)" "balanced (erase t)" "bst (erase t)"
    and "ids_below (allocated s) t"
  shows "(contains (erase t) v \<longrightarrow>
           (\<exists>t'. insert_o t v s =
                   Inr (t', s\<lparr>allocated := allocated s + search_depth (erase t) v\<rparr>) \<and>
                 erase t' = erase t \<and>
                 path_copied (allocated s) v t t' \<and>
                 (t' = t \<longleftrightarrow> value_of_o t = Inr v))) \<and>
         (\<exists>t1 s1 t2.
             insert_o t v s = Inr (t1, s1) \<and>
             insert_o t1 v s1 =
               Inr (t2, s1\<lparr>allocated := allocated s1 + search_depth (erase t1) v\<rparr>) \<and>
             (\<forall>x. contains (erase t2) x = contains (erase t1) x) \<and>
             erase t2 = erase t1 \<and>
             path_copied (allocated s1) v t1 t2)"
proof -
  from assms(1,2) have avl: "avl (erase t)" by (simp add: avl_def)
  have first: "\<exists>t'. insert_o t v s =
                   Inr (t', s\<lparr>allocated := allocated s + search_depth (erase t) v\<rparr>) \<and>
                 erase t' = erase t \<and>
                 path_copied (allocated s) v t t' \<and>
                 (t' = t \<longleftrightarrow> value_of_o t = Inr v)" if c: "contains (erase t) v"
  proof -
    from insert_o_present [OF avl c, of s] obtain t' where
      t': "insert_o t v s = Inr (t', s\<lparr>allocated := allocated s + search_depth (erase t) v\<rparr>)"
          "erase t' = erase t" "path_copied (allocated s) v t t'"
      by blast
    from c have "t \<noteq> OEmpty" by auto
    with path_copied_same_iff [OF assms(4) t'(3)] have "t' = t \<longleftrightarrow> value_of_o t = Inr v"
      by simp
    with t' show ?thesis by blast
  qed
  from insert_tree_avl [OF avl, of v] obtain u where
    u: "insert_tree (erase t) v = Inr u" "avl u" "set (inorder u) = insert v (set (inorder (erase t)))"
    by blast
  from insert_tree_bst [OF assms(3) u(1)] have "bst u" .
  with u(3) have cu: "contains u v" by (simp add: contains_iff)
  from u(1) erase_insert [of t v s] obtain t1 s1 where
    t1: "insert_o t v s = Inr (t1, s1)" "erase t1 = u"
    by (auto simp: forget_eq_Inr)
  from insert_o_present [of t1 v s1] u(2) cu t1(2) obtain t2 where
    t2: "insert_o t1 v s1 =
           Inr (t2, s1\<lparr>allocated := allocated s1 + search_depth (erase t1) v\<rparr>)"
        "erase t2 = erase t1" "path_copied (allocated s1) v t1 t2"
    by blast
  from t2(2) have "\<forall>x. contains (erase t2) x = contains (erase t1) x" by simp
  with t1(1) t2 have second: "\<exists>t1 s1 t2.
             insert_o t v s = Inr (t1, s1) \<and>
             insert_o t1 v s1 =
               Inr (t2, s1\<lparr>allocated := allocated s1 + search_depth (erase t1) v\<rparr>) \<and>
             (\<forall>x. contains (erase t2) x = contains (erase t1) x) \<and>
             erase t2 = erase t1 \<and>
             path_copied (allocated s1) v t1 t2"
    by blast
  from first second show ?thesis by blast
qed


theorem insert_present_copies_path_witness:
  "height_ok (erase (ONode 2 (1::int) OEmpty (ONode 1 2 OEmpty OEmpty 1) 2)) \<and>
   balanced (erase (ONode 2 (1::int) OEmpty (ONode 1 2 OEmpty OEmpty 1) 2)) \<and>
   bst (erase (ONode 2 (1::int) OEmpty (ONode 1 2 OEmpty OEmpty 1) 2)) \<and>
   ids_below (allocated \<lparr>allocated = 3, rotations = 0\<rparr>)
     (ONode 2 (1::int) OEmpty (ONode 1 2 OEmpty OEmpty 1) 2) \<and>
   contains (erase (ONode 2 (1::int) OEmpty (ONode 1 2 OEmpty OEmpty 1) 2)) 2 \<and>
   (\<exists>t'. insert_o (ONode 2 (1::int) OEmpty (ONode 1 2 OEmpty OEmpty 1) 2) 2
            \<lparr>allocated = 3, rotations = 0\<rparr> =
          Inr (t', \<lparr>allocated = 4, rotations = 0\<rparr>) \<and>
        erase t' = erase (ONode 2 (1::int) OEmpty (ONode 1 2 OEmpty OEmpty 1) 2) \<and>
        t' \<noteq> ONode 2 (1::int) OEmpty (ONode 1 2 OEmpty OEmpty 1) 2)"
proof -
  let ?T = "ONode 2 (1::int) OEmpty (ONode 1 2 OEmpty OEmpty 1) 2"
  let ?S = "\<lparr>allocated = 3, rotations = 0\<rparr>"
  have h: "height_ok (erase ?T)" "balanced (erase ?T)" "bst (erase ?T)"
    "ids_below (allocated ?S) ?T"
    by (simp_all add: bf_def)
  have c: "contains (erase ?T) 2" by simp
  have d: "?S\<lparr>allocated := allocated ?S + search_depth (erase ?T) 2\<rparr> =
           \<lparr>allocated = 4, rotations = 0\<rparr>"
    by simp
  have v: "value_of_o ?T \<noteq> Inr 2" by simp
  from insert_present_copies_path [OF h, of 2] c obtain t' where
    "insert_o ?T 2 ?S = Inr (t', ?S\<lparr>allocated := allocated ?S + search_depth (erase ?T) 2\<rparr>)"
    "erase t' = erase ?T" "t' = ?T \<longleftrightarrow> value_of_o ?T = Inr 2"
    by blast
  with d v have "insert_o ?T 2 ?S = Inr (t', \<lparr>allocated = 4, rotations = 0\<rparr>) \<and>
    erase t' = erase ?T \<and> t' \<noteq> ?T"
    by simp
  with h c show ?thesis by blast
qed

section \<open>Rotations\<close>

text \<open>
  Claim C8. For an inner node \<open>n\<close> whose right child is an inner node, \<open>rot_left(n)\<close>
  returns a new inner node with the value of the old right child; its left child is a new
  inner node with the value of \<open>n\<close>, the left child of \<open>n\<close> and the left child of the old
  right child; its right child is the right child of the old right child; the in-order
  sequence of values is that of \<open>n\<close>. Symmetrically for \<open>rot_right\<close> on a node whose left
  child is an inner node.
\<close>

theorem rotations_restructure:
  "rot_left_o (ONode i v l (ONode j rv rl rr rh) h) s =
     Inr (ONode (allocated s + 1) rv
            (ONode (allocated s) v l rl (max (height_o l) (height_o rl) + 1))
            rr
            (max (max (height_o l) (height_o rl) + 1) (height_o rr) + 1),
          s\<lparr>rotations := rotations s + 1, allocated := allocated s + 2\<rparr>) \<and>
   inorder (erase (ONode (allocated s + 1) rv
            (ONode (allocated s) v l rl (max (height_o l) (height_o rl) + 1))
            rr
            (max (max (height_o l) (height_o rl) + 1) (height_o rr) + 1))) =
     inorder (erase (ONode i v l (ONode j rv rl rr rh) h)) \<and>
   rot_right_o (ONode i v (ONode j lv ll lr lh) r h) s =
     Inr (ONode (allocated s + 1) lv
            ll
            (ONode (allocated s) v lr r (max (height_o lr) (height_o r) + 1))
            (max (height_o ll) (max (height_o lr) (height_o r) + 1) + 1),
          s\<lparr>rotations := rotations s + 1, allocated := allocated s + 2\<rparr>) \<and>
   inorder (erase (ONode (allocated s + 1) lv
            ll
            (ONode (allocated s) v lr r (max (height_o lr) (height_o r) + 1))
            (max (height_o ll) (max (height_o lr) (height_o r) + 1) + 1))) =
     inorder (erase (ONode i v (ONode j lv ll lr lh) r h))"
  by (simp add: rot_left_o_def rot_right_o_def new_node_def)


section \<open>The scenarios of the specification\<close>

text \<open>
  Claim C6. Starting from the empty tree and inserting 5, 3, 8, 1, 4, 7, 9 in that order
  gives a tree of height 3 that contains each of 1, 3, 4, 5, 7, 8, 9 and none of
  0, 2, 6, 10; removing 5 from it gives a tree that does not contain 5 and still
  contains the other six values.
\<close>

theorem scenario_seven_values:
  "\<exists>t t'. run Empty (map Insert [5, 3, 8, 1, 4, 7, 9 :: int]) = Inr t \<and>
     map (contains t) [1, 3, 4, 5, 7, 8, 9] = [True, True, True, True, True, True, True] \<and>
     map (contains t) [0, 2, 6, 10] = [False, False, False, False] \<and>
     height t = 3 \<and>
     remove t 5 = Inr t' \<and>
     contains t' 5 = False \<and>
     map (contains t') [1, 3, 4, 7, 8, 9] = [True, True, True, True, True, True]"
proof -
  let ?t = "InnerNode (5::int)
       (InnerNode 3 (InnerNode 1 Empty Empty 1) (InnerNode 4 Empty Empty 1) 2)
       (InnerNode 8 (InnerNode 7 Empty Empty 1) (InnerNode 9 Empty Empty 1) 2) 3"
  let ?t' = "InnerNode (4::int) (InnerNode 3 (InnerNode 1 Empty Empty 1) Empty 2)
       (InnerNode 8 (InnerNode 7 Empty Empty 1) (InnerNode 9 Empty Empty 1) 2) 3"
  have 1: "run Empty (map Insert [5, 3, 8, 1, 4, 7, 9 :: int]) = Inr ?t"
    by code_simp
  have 2: "remove ?t 5 = Inr ?t'"
    by code_simp
  have 3: "map (contains ?t) [1, 3, 4, 5, 7, 8, 9] = [True, True, True, True, True, True, True]"
    by simp
  have 4: "map (contains ?t) [0, 2, 6, 10] = [False, False, False, False]"
    by simp
  have 5: "map (contains ?t') [1, 3, 4, 7, 8, 9] = [True, True, True, True, True, True]"
    by simp
  have 6: "contains ?t' 5 = False" by simp
  have 7: "height ?t = 3" by simp
  show ?thesis
    by (rule exI [of _ ?t], rule exI [of _ ?t']) (intro conjI 1 2 3 4 5 6 7)
qed

text \<open>
  Claim C7. Inserting 1, 2 and 3 into the empty tree calls a rotation exactly once and
  gives the tree with 2 at the root, the leaf 1 as left child and the leaf 3 as right
  child, of height 2 and balance factor 0.
\<close>

theorem rotation_scenario:
  "run_o OEmpty (map Insert [1, 2, 3 :: int]) \<lparr>allocated = 0, rotations = 0\<rparr> =
     Inr (ONode 7 2 (ONode 6 1 OEmpty OEmpty 1) (ONode 3 3 OEmpty OEmpty 1) 2,
          \<lparr>allocated = 8, rotations = 1\<rparr>) \<and>
   run Empty (map Insert [1, 2, 3 :: int]) =
     Inr (InnerNode 2 (InnerNode 1 Empty Empty 1) (InnerNode 3 Empty Empty 1) 2) \<and>
   height (InnerNode (2::int) (InnerNode 1 Empty Empty 1) (InnerNode 3 Empty Empty 1) 2) = 2 \<and>
   bf (InnerNode (2::int) (InnerNode 1 Empty Empty 1) (InnerNode 3 Empty Empty 1) 2) = 0"
proof -
  have "run_o OEmpty (map Insert [1, 2, 3 :: int]) \<lparr>allocated = 0, rotations = 0\<rparr> =
     Inr (ONode 7 2 (ONode 6 1 OEmpty OEmpty 1) (ONode 3 3 OEmpty OEmpty 1) 2,
          \<lparr>allocated = 8, rotations = 1\<rparr>)"
    by code_simp
  moreover have "run Empty (map Insert [1, 2, 3 :: int]) =
     Inr (InnerNode 2 (InnerNode 1 Empty Empty 1) (InnerNode 3 Empty Empty 1) 2)"
    by code_simp
  ultimately show ?thesis by (simp add: bf_def)
qed

end
